theory Spec2Isabelle
  imports Main "HOL-Library.Word"
begin

unbundle bit_operations_syntax

section \<open>Values of the host language\<close>

text \<open>
  The three route files are browser code. A \<open>Uint8Array\<close> is a list of 8-bit words.
  A JavaScript string is a list of UTF-16 code units; a code unit is a natural number
  below \<open>0x10000\<close>. \<open>str\<close> writes an ASCII literal as such a list.
\<close>

type_synonym byte = "8 word"
type_synonym jsstring = "nat list"

definition str :: "string \<Rightarrow> jsstring" where
  "str s = map of_char s"

text \<open>
  The exceptions the code can meet: \<open>DataError\<close> (\<open>importKey\<close> on a raw AES key that is
  not 16, 24 or 32 bytes long), \<open>OperationError\<close> (a failed \<open>subtle.decrypt\<close>),
  \<open>InvalidCharacterError\<close> (\<open>btoa\<close>, \<open>atob\<close>), \<open>RangeError\<close> (a call with more
  arguments than the engine accepts), and \<open>Error msg\<close> for \<open>throw new Error(msg)\<close>.
\<close>

datatype js_error = DataError | OperationError | InvalidCharacterError | RangeError | Error jsstring

subsection \<open>Strings as Unicode text: \<open>TextEncoder\<close> and \<open>TextDecoder\<close>\<close>

definition is_high :: "nat \<Rightarrow> bool" where
  "is_high u = (0xD800 \<le> u \<and> u \<le> 0xDBFF)"

definition is_low :: "nat \<Rightarrow> bool" where
  "is_low u = (0xDC00 \<le> u \<and> u \<le> 0xDFFF)"

text \<open>
  \<open>TextEncoder.encode\<close> first converts its argument to a sequence of scalar values: a
  surrogate pair becomes one code point, a surrogate that stands alone becomes U+FFFD.
\<close>

fun to_usv :: "jsstring \<Rightarrow> nat list" where
  "to_usv [] = []"
| "to_usv [u] = (if is_high u \<or> is_low u then [0xFFFD] else [u])"
| "to_usv (u # v # us) =
     (if is_high u \<and> is_low v
        then (0x10000 + 0x400 * (u mod 0x400) + v mod 0x400) # to_usv us
      else if is_high u \<or> is_low u then 0xFFFD # to_usv (v # us)
      else u # to_usv (v # us))"

fun from_usv :: "nat list \<Rightarrow> jsstring" where
  "from_usv [] = []"
| "from_usv (c # cs) =
     (if c < 0x10000 then c # from_usv cs
      else (0xD800 + (c - 0x10000) div 0x400) # (0xDC00 + (c - 0x10000) mod 0x400) #
           from_usv cs)"

text \<open>Unicode text: every code unit is 16 bits wide and every surrogate is paired.\<close>

fun wellformed :: "jsstring \<Rightarrow> bool" where
  "wellformed [] = True"
| "wellformed [u] = (u < 0x10000 \<and> \<not> is_high u \<and> \<not> is_low u)"
| "wellformed (u # v # us) =
     (if is_high u then is_low v \<and> wellformed us
      else u < 0x10000 \<and> \<not> is_low u \<and> wellformed (v # us))"

definition scalar :: "nat \<Rightarrow> bool" where
  "scalar c = (c < 0x110000 \<and> \<not> (0xD800 \<le> c \<and> c \<le> 0xDFFF))"

definition utf8_encode_cp :: "nat \<Rightarrow> nat list" where
  "utf8_encode_cp c =
     (if c < 0x80 then [c]
      else if c < 0x800 then [0xC0 + c div 0x40, 0x80 + c mod 0x40]
      else if c < 0x10000 then
        [0xE0 + c div 0x1000, 0x80 + c div 0x40 mod 0x40, 0x80 + c mod 0x40]
      else [0xF0 + c div 0x40000, 0x80 + c div 0x1000 mod 0x40,
            0x80 + c div 0x40 mod 0x40, 0x80 + c mod 0x40])"

definition TextEncoder_encode :: "jsstring \<Rightarrow> byte list" where
  "TextEncoder_encode s = map of_nat (concat (map utf8_encode_cp (to_usv s)))"

text \<open>
  The UTF-8 decoder of the Encoding Standard, one byte at a time. Its state is the code
  point collected so far, the number of bytes needed and seen, and the bounds for the
  next byte. \<open>new TextDecoder()\<close> is not fatal: an error emits U+FFFD, and the byte that
  broke a sequence is read again as the start of the next one.
\<close>

fun utf8_decode :: "nat \<Rightarrow> nat \<Rightarrow> nat \<Rightarrow> nat \<Rightarrow> nat \<Rightarrow> nat list \<Rightarrow> nat list" where
  "utf8_decode cp need seen lo hi [] = (if need \<noteq> 0 then [0xFFFD] else [])"
| "utf8_decode cp need seen lo hi (b # bs) =
     (if need \<noteq> 0 \<and> lo \<le> b \<and> b \<le> hi then
        (if seen + 1 = need then (cp * 0x40 + b mod 0x40) # utf8_decode 0 0 0 0x80 0xBF bs
         else utf8_decode (cp * 0x40 + b mod 0x40) need (seen + 1) 0x80 0xBF bs)
      else (if need \<noteq> 0 then [0xFFFD] else []) @
        (if b \<le> 0x7F then b # utf8_decode 0 0 0 0x80 0xBF bs
         else if 0xC2 \<le> b \<and> b \<le> 0xDF then utf8_decode (b mod 0x20) 1 0 0x80 0xBF bs
         else if 0xE0 \<le> b \<and> b \<le> 0xEF then
           utf8_decode (b mod 0x10) 2 0 (if b = 0xE0 then 0xA0 else 0x80)
             (if b = 0xED then 0x9F else 0xBF) bs
         else if 0xF0 \<le> b \<and> b \<le> 0xF4 then
           utf8_decode (b mod 8) 3 0 (if b = 0xF0 then 0x90 else 0x80)
             (if b = 0xF4 then 0x8F else 0xBF) bs
         else 0xFFFD # utf8_decode 0 0 0 0x80 0xBF bs))"

text \<open>
  \<open>new TextDecoder()\<close> leaves \<open>ignoreBOM\<close> at its default \<open>false\<close>: a byte order mark
  U+FEFF at the head of the decoded text is dropped.
\<close>

fun strip_bom :: "nat list \<Rightarrow> nat list" where
  "strip_bom [] = []"
| "strip_bom (c # cs) = (if c = 0xFEFF then cs else c # cs)"

definition TextDecoder_decode :: "byte list \<Rightarrow> jsstring" where
  "TextDecoder_decode bs =
     from_usv (strip_bom (utf8_decode 0 0 0 0x80 0xBF (map unat bs)))"

subsection \<open>Binary strings and base64: \<open>String.fromCharCode\<close>, \<open>btoa\<close>, \<open>atob\<close>\<close>

definition fromCharCode :: "byte list \<Rightarrow> jsstring" where
  "fromCharCode bs = map unat bs"

definition charCodes :: "jsstring \<Rightarrow> byte list" where
  "charCodes s = map of_nat s"

definition b64_char :: "nat \<Rightarrow> nat" where
  "b64_char i =
     (if i < 26 then 65 + i else if i < 52 then 71 + i else if i < 62 then i - 4
      else if i = 62 then 43 else 47)"

definition b64_value :: "nat \<Rightarrow> nat option" where
  "b64_value c =
     (if 65 \<le> c \<and> c \<le> 90 then Some (c - 65)
      else if 97 \<le> c \<and> c \<le> 122 then Some (c - 71)
      else if 48 \<le> c \<and> c \<le> 57 then Some (c + 4)
      else if c = 43 then Some 62 else if c = 47 then Some 63 else None)"

fun sextets :: "nat list \<Rightarrow> nat list" where
  "sextets (a # b # c # r) =
     [a div 4, a mod 4 * 16 + b div 16, b mod 16 * 4 + c div 64, c mod 64] @ sextets r"
| "sextets [a, b] = [a div 4, a mod 4 * 16 + b div 16, b mod 16 * 4]"
| "sextets [a] = [a div 4, a mod 4 * 16]"
| "sextets [] = []"

text \<open>\<open>btoa\<close> throws on a code unit above 255; the output is padded with \<open>=\<close> (61).\<close>

definition btoa :: "jsstring \<Rightarrow> js_error + jsstring" where
  "btoa s =
     (if list_ex (\<lambda>u. 255 < u) s then Inl InvalidCharacterError
      else Inr (map b64_char (sextets s) @ replicate ((3 - length s mod 3) mod 3) 61))"

fun unsextets :: "nat list \<Rightarrow> nat list" where
  "unsextets (a # b # c # d # r) =
     [a * 4 + b div 16, b mod 16 * 16 + c div 4, c mod 4 * 64 + d] @ unsextets r"
| "unsextets [a, b, c] = [a * 4 + b div 16, b mod 16 * 16 + c div 4]"
| "unsextets [a, b] = [a * 4 + b div 16]"
| "unsextets [a] = []"
| "unsextets [] = []"

definition ascii_whitespace :: "nat \<Rightarrow> bool" where
  "ascii_whitespace c = (c = 9 \<or> c = 10 \<or> c = 12 \<or> c = 13 \<or> c = 32)"

definition strip_padding :: "jsstring \<Rightarrow> jsstring" where
  "strip_padding s =
     (if length s mod 4 = 0 \<and> s \<noteq> [] \<and> last s = 61 then
        (if butlast s \<noteq> [] \<and> last (butlast s) = 61 then butlast (butlast s)
         else butlast s)
      else s)"

text \<open>
  \<open>atob\<close> is the forgiving base64 decode of the Infra Standard: white space is removed,
  one or two trailing \<open>=\<close> are removed when the length is a multiple of four, a length of
  \<open>1 mod 4\<close> or a character outside the alphabet throws.
\<close>

definition atob :: "jsstring \<Rightarrow> js_error + jsstring" where
  "atob s =
     (let d = strip_padding (filter (\<lambda>c. \<not> ascii_whitespace c) s) in
      if length d mod 4 = 1 \<or> list_ex (\<lambda>c. b64_value c = None) d
        then Inl InvalidCharacterError
      else Inr (unsextets (map (\<lambda>c. the (b64_value c)) d)))"

subsection \<open>\<open>JSON.stringify\<close> of the record object\<close>

definition show_byte :: "nat \<Rightarrow> jsstring" where
  "show_byte n =
     (if n < 10 then [48 + n]
      else if n < 100 then [48 + n div 10, 48 + n mod 10]
      else [48 + n div 100, 48 + n div 10 mod 10, 48 + n mod 10])"

fun commas :: "jsstring list \<Rightarrow> jsstring" where
  "commas [] = []"
| "commas [x] = x"
| "commas (x # y # r) = x @ [44] @ commas (y # r)"

definition show_array :: "byte list \<Rightarrow> jsstring" where
  "show_array bs = [91] @ commas (map (\<lambda>b. show_byte (unat b)) bs) @ [93]"

text \<open>
  \<open>JSON.stringify({ iv: Array.from(iv), data: Array.from(...) })\<close>; 34 is the double
  quote.
\<close>

definition JSON_stringify :: "byte list \<Rightarrow> byte list \<Rightarrow> jsstring" where
  "JSON_stringify iv data =
     str ''{'' @ [34] @ str ''iv'' @ [34] @ str '':'' @ show_array iv @ str '','' @
     [34] @ str ''data'' @ [34] @ str '':'' @ show_array data @ str ''}''"

section \<open>The platform\<close>

text \<open>
  The cryptographic primitives are \<open>crypto.subtle\<close>'s, not the repository's, and are
  parameters of the model: PBKDF2 with HMAC-SHA-256 (password, salt, iterations, giving
  32 bytes), AES-GCM with a 128-bit tag (key, iv, data; decryption fails with
  \<open>OperationError\<close>, here \<open>None\<close>), and the AES block cipher under CBC. The fourth
  parameter stands for lines 54 to 56 of \<open>decryptText\<close>: \<open>JSON.parse\<close> of the stored
  text and the two \<open>new Uint8Array(obj.\<dots>)\<close>; it is \<open>None\<close> when one of them throws.
  \<open>max_args\<close> is the largest number of arguments the engine accepts in one call.
  Nothing is assumed of the parameters but what a theorem states as a hypothesis.
\<close>

record platform =
  pbkdf2 :: "byte list \<Rightarrow> byte list \<Rightarrow> nat \<Rightarrow> byte list"
  gcm_encrypt :: "byte list \<Rightarrow> byte list \<Rightarrow> byte list \<Rightarrow> byte list"
  gcm_decrypt :: "byte list \<Rightarrow> byte list \<Rightarrow> byte list \<Rightarrow> byte list option"
  parse_record :: "jsstring \<Rightarrow> (byte list \<times> byte list) option"
  block_encrypt :: "byte list \<Rightarrow> byte list \<Rightarrow> byte list"
  block_decrypt :: "byte list \<Rightarrow> byte list \<Rightarrow> byte list"
  max_args :: nat

text \<open>
  \<open>String.fromCharCode(...bytes)\<close> passes every byte as one argument of the call. Beyond
  the limit of the engine the call throws \<open>RangeError\<close> and no string is made.
\<close>

definition spread_fromCharCode :: "platform \<Rightarrow> byte list \<Rightarrow> js_error + jsstring" where
  "spread_fromCharCode P bs =
     (if max_args P < length bs then Inl RangeError else Inr (fromCharCode bs))"

text \<open>
  \<open>crypto.getRandomValues(new Uint8Array(n))\<close> fills the array from the random source of
  the system. The source is the sequence of the bytes it is going to deliver: a call takes
  the next \<open>n\<close> of them and leaves the rest. Which bytes these are is not the program's.
\<close>

type_synonym random_source = "nat \<Rightarrow> byte"

definition getRandomValues :: "nat \<Rightarrow> random_source \<Rightarrow> byte list \<times> random_source" where
  "getRandomValues n g = (map g [0..<n], \<lambda>i. g (n + i))"

text \<open>\<open>importKey("raw", \<dots>)\<close> for AES accepts keys of 128, 192 and 256 bits only.\<close>

definition importKey :: "byte list \<Rightarrow> js_error + byte list" where
  "importKey keyData =
     (if length keyData = 16 \<or> length keyData = 24 \<or> length keyData = 32
      then Inr keyData else Inl DataError)"

subsection \<open>AES-CBC with PKCS\#7 padding over the block cipher\<close>

definition xor_bytes :: "byte list \<Rightarrow> byte list \<Rightarrow> byte list" where
  "xor_bytes xs ys = map2 (XOR) xs ys"

definition pkcs7_pad :: "byte list \<Rightarrow> byte list" where
  "pkcs7_pad bs = (let n = 16 - length bs mod 16 in bs @ replicate n (of_nat n))"

definition pkcs7_unpad :: "byte list \<Rightarrow> byte list option" where
  "pkcs7_unpad bs =
     (if bs = [] then None
      else let n = unat (last bs) in
        if n = 0 \<or> 16 < n \<or> length bs < n \<or> drop (length bs - n) bs \<noteq> replicate n (last bs)
        then None else Some (take (length bs - n) bs))"

definition blocks :: "byte list \<Rightarrow> byte list list" where
  "blocks bs = map (\<lambda>i. take 16 (drop (16 * i) bs)) [0..<length bs div 16]"

fun cbc_encrypt_chain :: "(byte list \<Rightarrow> byte list) \<Rightarrow> byte list \<Rightarrow> byte list list \<Rightarrow> byte list list" where
  "cbc_encrypt_chain E prev [] = []"
| "cbc_encrypt_chain E prev (p # ps) =
     (let c = E (xor_bytes p prev) in c # cbc_encrypt_chain E c ps)"

fun cbc_decrypt_chain :: "(byte list \<Rightarrow> byte list) \<Rightarrow> byte list \<Rightarrow> byte list list \<Rightarrow> byte list list" where
  "cbc_decrypt_chain D prev [] = []"
| "cbc_decrypt_chain D prev (c # cs) = xor_bytes (D c) prev # cbc_decrypt_chain D c cs"

definition cbc_encrypt :: "platform \<Rightarrow> byte list \<Rightarrow> byte list \<Rightarrow> byte list \<Rightarrow> js_error + byte list" where
  "cbc_encrypt P key iv pt =
     (if length iv \<noteq> 16 then Inl OperationError
      else Inr (concat (cbc_encrypt_chain (block_encrypt P key) iv (blocks (pkcs7_pad pt)))))"

definition cbc_decrypt :: "platform \<Rightarrow> byte list \<Rightarrow> byte list \<Rightarrow> byte list \<Rightarrow> js_error + byte list" where
  "cbc_decrypt P key iv ct =
     (if length iv \<noteq> 16 \<or> ct = [] \<or> length ct mod 16 \<noteq> 0 then Inl OperationError
      else case pkcs7_unpad (concat (cbc_decrypt_chain (block_decrypt P key) iv (blocks ct))) of
        None \<Rightarrow> Inl OperationError
      | Some pt \<Rightarrow> Inr pt)"

section \<open>The password variant: PBKDF2 and AES-GCM, a JSON record\<close>

text \<open>
  \<open>app/routes/$id.tsx\<close>, first module. \<open>deriveKey\<close> has one parameter; the salt and the
  iteration count are constants of its body, and it has no check of its own.
\<close>

definition deriveKey :: "platform \<Rightarrow> jsstring \<Rightarrow> js_error + byte list" where
  "deriveKey P password =
     Inr (pbkdf2 P (TextEncoder_encode password)
            (TextEncoder_encode (str ''fixed-salt-for-derivation'')) 150000)"

text \<open>
  \<open>encryptText\<close> is given twice. The first takes \<open>iv\<close>, the value of
  \<open>crypto.getRandomValues(new Uint8Array(12))\<close>, as an argument: it is the function
  of password, plaintext and the twelve bytes drawn. The second, \<open>encryptText_rnd\<close>, is the
  call as a whole with the random source passed through it: the key is derived, then the
  nonce is drawn, then the text is encrypted.
\<close>

definition encryptText :: "platform \<Rightarrow> byte list \<Rightarrow> jsstring \<Rightarrow> jsstring \<Rightarrow> js_error + jsstring" where
  "encryptText P iv password plaintext =
     (case deriveKey P password of
        Inl e \<Rightarrow> Inl e
      | Inr key \<Rightarrow>
          Inr (JSON_stringify iv (gcm_encrypt P key iv (TextEncoder_encode plaintext))))"


definition decryptText :: "platform \<Rightarrow> jsstring \<Rightarrow> jsstring \<Rightarrow> js_error + jsstring" where
  "decryptText P password cipherJson =
     (case deriveKey P password of
        Inl e \<Rightarrow> Inl (Error (str ''Bad password or corrupted data''))
      | Inr key \<Rightarrow>
          (case parse_record P cipherJson of
             None \<Rightarrow> Inl (Error (str ''Bad password or corrupted data''))
           | Some (iv, data) \<Rightarrow>
               (case gcm_decrypt P key iv data of
                  None \<Rightarrow> Inl (Error (str ''Bad password or corrupted data''))
                | Some plaintext \<Rightarrow> Inr (TextDecoder_decode plaintext))))"

record stored_note =
  note_id :: jsstring
  note_text :: jsstring

record unlock_state =
  u_notes :: "stored_note list"
  u_password :: jsstring
  u_unlocked :: bool
  u_decryptedNotes :: "stored_note list"
  u_error :: jsstring

text \<open>The \<open>for\<close> loop of \<open>attemptUnlock\<close>; the first exception leaves the loop.\<close>

fun unlock_loop :: "platform \<Rightarrow> jsstring \<Rightarrow> stored_note list \<Rightarrow> stored_note list \<Rightarrow> js_error + stored_note list" where
  "unlock_loop P pw [] out = Inr out"
| "unlock_loop P pw (n # ns) out =
     (case decryptText P pw (note_text n) of
        Inl e \<Rightarrow> Inl e
      | Inr dec \<Rightarrow> unlock_loop P pw ns (out @ [\<lparr>note_id = note_id n, note_text = dec\<rparr>]))"

definition attemptUnlock :: "platform \<Rightarrow> unlock_state \<Rightarrow> unlock_state" where
  "attemptUnlock P st =
     (case unlock_loop P (u_password st) (u_notes st) [] of
        Inr out \<Rightarrow> st\<lparr>u_decryptedNotes := out, u_unlocked := True, u_error := []\<rparr>
      | Inl e \<Rightarrow> st\<lparr>u_error := str ''Incorrect password''\<rparr>)"

text \<open>\<open>handleCreate\<close>: the text sent to the store is always the encrypted record.\<close>

definition handleCreate :: "platform \<Rightarrow> byte list \<Rightarrow> unlock_state \<Rightarrow> jsstring \<Rightarrow> js_error + jsstring" where
  "handleCreate P iv st plain = encryptText P iv (u_password st) plain"

section \<open>The raw-key variant: padded key and AES-GCM, a base64 record\<close>

text \<open>The second unnamed route file. \<open>key.padEnd(32, '0').slice(0, 32)\<close>:\<close>

definition padKey :: "jsstring \<Rightarrow> jsstring" where
  "padKey key = take 32 (key @ replicate (32 - length key) 48)"

text \<open>
  \<open>encryptText\<close> of this variant, with the nonce as an argument and, as \<open>encryptText_raw_rnd\<close>,
  with the random source passed through. The empty key returns before anything is drawn,
  and so does a key \<open>importKey\<close> rejects.
\<close>

definition encryptText_raw :: "platform \<Rightarrow> byte list \<Rightarrow> jsstring \<Rightarrow> jsstring \<Rightarrow> js_error + jsstring" where
  "encryptText_raw P iv text_in key =
     (if key = [] then Inr text_in
      else case importKey (TextEncoder_encode (padKey key)) of
        Inl e \<Rightarrow> Inl e
      | Inr cryptoKey \<Rightarrow>
          (case spread_fromCharCode P
                  (iv @ gcm_encrypt P cryptoKey iv (TextEncoder_encode text_in)) of
             Inl e \<Rightarrow> Inl e
           | Inr bin \<Rightarrow> btoa bin))"


definition failed_raw :: "jsstring \<Rightarrow> jsstring" where
  "failed_raw encryptedText = str ''[Decryption Failed - Invalid Key?] '' @ encryptedText"

text \<open>
  \<open>decryptText\<close> of this variant never throws: its \<open>catch\<close> returns a string made of a
  fixed prefix and the text it was given.
\<close>

definition decryptText_raw :: "platform \<Rightarrow> jsstring \<Rightarrow> jsstring \<Rightarrow> jsstring" where
  "decryptText_raw P encryptedText key =
     (if key = [] then encryptedText
      else case atob encryptedText of
        Inl e \<Rightarrow> failed_raw encryptedText
      | Inr bin \<Rightarrow>
          (let combined = charCodes bin; iv = take 12 combined; encrypted = drop 12 combined in
           case importKey (TextEncoder_encode (padKey key)) of
             Inl e \<Rightarrow> failed_raw encryptedText
           | Inr cryptoKey \<Rightarrow>
               (case gcm_decrypt P cryptoKey iv encrypted of
                  None \<Rightarrow> failed_raw encryptedText
                | Some decrypted \<Rightarrow> TextDecoder_decode decrypted)))"

record shown_note =
  shown_id :: jsstring
  shown_text :: jsstring
  isEncrypted :: bool

record page_state =
  p_notes :: "stored_note list"
  p_encryptKey :: jsstring
  p_decryptKey :: jsstring
  p_decryptedNotes :: "shown_note list"

text \<open>
  \<open>handleEncryptSubmit\<close>: the value \<open>textToSubmit\<close> of the hidden input the form is
  submitted with, which the \<open>create\<close> action stores; \<open>None\<close> when the handler returns
  without submitting (empty text, or the alert after a failed encryption).
\<close>

definition handleEncryptSubmit :: "platform \<Rightarrow> byte list \<Rightarrow> page_state \<Rightarrow> jsstring \<Rightarrow> jsstring option" where
  "handleEncryptSubmit P iv st text_in =
     (if text_in = [] then None
      else if p_encryptKey st \<noteq> [] then
        (case encryptText_raw P iv text_in (p_encryptKey st) of
           Inl e \<Rightarrow> None
         | Inr encrypted \<Rightarrow> Some encrypted)
      else Some text_in)"

text \<open>
  \<open>handleDecryptAll\<close>: \<open>Promise.all\<close> over \<open>notes.map\<close>, one entry per note in the order
  of the notes. The \<open>catch\<close> of the callback is dead code, \<open>decryptText\<close> does not throw.
\<close>

fun decrypt_each :: "platform \<Rightarrow> jsstring \<Rightarrow> stored_note list \<Rightarrow> shown_note list" where
  "decrypt_each P key [] = []"
| "decrypt_each P key (n # ns) =
     (let decryptedText = decryptText_raw P (note_text n) key in
      \<lparr>shown_id = note_id n, shown_text = decryptedText,
       isEncrypted = (note_text n \<noteq> decryptedText)\<rparr> # decrypt_each P key ns)"

definition handleDecryptAll :: "platform \<Rightarrow> page_state \<Rightarrow> page_state" where
  "handleDecryptAll P st =
     (if p_decryptKey st = [] then st else st\<lparr>p_decryptedNotes := decrypt_each P (p_decryptKey st) (p_notes st)\<rparr>)"

section \<open>The AES-CBC variant: the password as the key, two base64 fields\<close>

text \<open>\<open>app/routes/$id.tsx\<close>, second module.\<close>

fun split_on :: "nat \<Rightarrow> jsstring \<Rightarrow> jsstring list" where
  "split_on c [] = [[]]"
| "split_on c (x # xs) =
     (if x = c then [] # split_on c xs
      else case split_on c xs of p # ps \<Rightarrow> (x # p) # ps | [] \<Rightarrow> [[x]])"

definition encryptText_cbc :: "platform \<Rightarrow> byte list \<Rightarrow> jsstring \<Rightarrow> jsstring \<Rightarrow> js_error + jsstring" where
  "encryptText_cbc P iv text_in password =
     (case importKey (TextEncoder_encode password) of
        Inl e \<Rightarrow> Inl e
      | Inr key \<Rightarrow>
          (case cbc_encrypt P key iv (TextEncoder_encode text_in) of
             Inl e \<Rightarrow> Inl e
           | Inr ciphertext \<Rightarrow>
               (case spread_fromCharCode P iv of
                  Inl e \<Rightarrow> Inl e
                | Inr ivBin \<Rightarrow>
                    (case btoa ivBin of
                       Inl e \<Rightarrow> Inl e
                     | Inr ivB64 \<Rightarrow>
                         (case spread_fromCharCode P ciphertext of
                            Inl e \<Rightarrow> Inl e
                          | Inr ctBin \<Rightarrow>
                              (case btoa ctBin of
                                 Inl e \<Rightarrow> Inl e
                               | Inr ctB64 \<Rightarrow> Inr (ivB64 @ str '':'' @ ctB64)))))))"

text \<open>
  \<open>const [ivB64, ctB64] = text.split(":")\<close>: a missing second field is \<open>undefined\<close>, which
  \<open>atob\<close> reads as the string \<open>undefined\<close>.
\<close>

definition decryptText_cbc :: "platform \<Rightarrow> jsstring \<Rightarrow> jsstring \<Rightarrow> js_error + jsstring" where
  "decryptText_cbc P text_in password =
     (let parts = split_on 58 text_in;
          ivB64 = hd parts;
          ctB64 = (if 2 \<le> length parts then parts ! 1 else str ''undefined'') in
      case atob ivB64 of
        Inl e \<Rightarrow> Inl e
      | Inr ivs \<Rightarrow>
          (case atob ctB64 of
             Inl e \<Rightarrow> Inl e
           | Inr cts \<Rightarrow>
               (case importKey (TextEncoder_encode password) of
                  Inl e \<Rightarrow> Inl e
                | Inr key \<Rightarrow>
                    (case cbc_decrypt P key (charCodes ivs) (charCodes cts) of
                       Inl e \<Rightarrow> Inl e
                     | Inr plaintext \<Rightarrow> Inr (TextDecoder_decode plaintext)))))"

section \<open>The age variant\<close>

text \<open>
  The first unnamed route file. The \<open>catch\<close> of \<open>encryptWithAge\<close> logs the exception and
  throws it again.
\<close>

definition AGE_PUBLIC_KEY :: jsstring where
  "AGE_PUBLIC_KEY = str ''age1hxapl72mrxyuxq7ks4h52tggsajq97mycz2r0520327v5hqgd33q553djp''"

definition age_header :: jsstring where
  "age_header = str ''-----BEGIN AGE ENCRYPTED FILE-----'' @ [10]"

definition age_footer :: jsstring where
  "age_footer = [10] @ str ''-----END AGE ENCRYPTED FILE-----''"

definition encryptWithAge :: "platform \<Rightarrow> jsstring \<Rightarrow> js_error + jsstring" where
  "encryptWithAge P text_in =
     (case spread_fromCharCode P (TextEncoder_encode text_in) of
        Inl e \<Rightarrow> Inl e
      | Inr bin \<Rightarrow>
          (case btoa bin of
             Inl e \<Rightarrow> Inl e
           | Inr payload \<Rightarrow>
               Inr (age_header @ str ''Recipient: '' @ AGE_PUBLIC_KEY @ [10, 10] @ payload @
                    age_footer)))"

section \<open>An executable instance of the platform\<close>

text \<open>
  To run the definitions on concrete inputs the platform needs an instance. \<open>sim\<close> is a
  small one: the cipher is a stand-in (the data XORed with the key, followed by a 16-byte
  checksum of key, iv and data), the key derivation cuts 32 bytes from password
  and salt, the block cipher XORs with the key, and the parser reads the texts that
  \<open>JSON_stringify\<close> writes. It is not AES; the general theorems do not mention it. Its
  engine takes 65535 arguments in a call, and its random source delivers 1, 2, 3 and so on.
\<close>

definition sim_pbkdf2 :: "byte list \<Rightarrow> byte list \<Rightarrow> nat \<Rightarrow> byte list" where
  "sim_pbkdf2 pw salt n = take 32 (pw @ salt @ replicate 32 0)"

definition sim_stream :: "byte list \<Rightarrow> nat \<Rightarrow> byte list" where
  "sim_stream key n = take n (key @ replicate n 0)"

definition sim_tag :: "byte list \<Rightarrow> byte list \<Rightarrow> byte list \<Rightarrow> byte list" where
  "sim_tag key iv ct =
     xor_bytes (sim_stream key 16)
       (xor_bytes (take 16 (iv @ replicate 16 0))
          (replicate 16 (fold (+) ct (of_nat (length ct)))))"

definition sim_gcm_encrypt :: "byte list \<Rightarrow> byte list \<Rightarrow> byte list \<Rightarrow> byte list" where
  "sim_gcm_encrypt key iv pt =
     (let ct = xor_bytes pt (sim_stream key (length pt)) in ct @ sim_tag key iv ct)"

definition sim_gcm_decrypt :: "byte list \<Rightarrow> byte list \<Rightarrow> byte list \<Rightarrow> byte list option" where
  "sim_gcm_decrypt key iv data =
     (if length data < 16 then None
      else let ct = take (length data - 16) data in
        if drop (length data - 16) data = sim_tag key iv ct
        then Some (xor_bytes ct (sim_stream key (length ct))) else None)"

definition sim_block :: "byte list \<Rightarrow> byte list \<Rightarrow> byte list" where
  "sim_block key x = xor_bytes x (take 16 key)"

definition read_nat :: "jsstring \<Rightarrow> nat" where
  "read_nat ds = foldl (\<lambda>a d. 10 * a + (d - 48)) 0 ds"

definition sim_number :: "jsstring \<Rightarrow> byte option" where
  "sim_number ds =
     (if ds = [] \<or> list_ex (\<lambda>d. d < 48 \<or> 57 < d) ds \<or> (hd ds = 48 \<and> 1 < length ds) then None
      else Some (of_nat (read_nat ds)))"

definition sim_array :: "jsstring \<Rightarrow> byte list option" where
  "sim_array body =
     (if body = [] then Some []
      else let xs = map sim_number (split_on 44 body) in
        if list_ex (\<lambda>x. x = None) xs then None else Some (map the xs))"

definition sim_parse_record :: "jsstring \<Rightarrow> (byte list \<times> byte list) option" where
  "sim_parse_record s =
     (let open_iv = str ''{'' @ [34] @ str ''iv'' @ [34] @ str '':['';
          open_data = str ''],'' @ [34] @ str ''data'' @ [34] @ str '':['';
          r1 = drop 7 s; ivs = takeWhile (\<lambda>c. c \<noteq> 93) r1;
          r2 = drop (length ivs) r1;
          r3 = drop 10 r2; ds = takeWhile (\<lambda>c. c \<noteq> 93) r3;
          r4 = drop (length ds) r3 in
      if take 7 s = open_iv \<and> take 10 r2 = open_data \<and> r4 = str '']}'' then
        (case (sim_array ivs, sim_array ds) of
           (Some a, Some b) \<Rightarrow> Some (a, b)
         | _ \<Rightarrow> None)
      else None)"

definition sim :: platform where
  "sim = \<lparr>pbkdf2 = sim_pbkdf2, gcm_encrypt = sim_gcm_encrypt, gcm_decrypt = sim_gcm_decrypt,
          parse_record = sim_parse_record, block_encrypt = sim_block,
          block_decrypt = sim_block, max_args = 65535\<rparr>"


section \<open>Notions the statements use\<close>

text \<open>A text that begins with the byte order mark U+FEFF.\<close>

fun starts_with_bom :: "jsstring \<Rightarrow> bool" where
  "starts_with_bom [] = False"
| "starts_with_bom (u # us) = (u = 0xFEFF)"

text \<open>
  Encrypting and then decrypting, in the password variant and in the raw-key variant; in
  the latter the key of the second step may differ from the key of the first.
\<close>

definition roundtrip :: "platform \<Rightarrow> byte list \<Rightarrow> jsstring \<Rightarrow> jsstring \<Rightarrow> js_error + jsstring" where
  "roundtrip P iv pw plaintext =
     (case encryptText P iv pw plaintext of
        Inl e \<Rightarrow> Inl e
      | Inr r \<Rightarrow> decryptText P pw r)"

definition cross_raw :: "platform \<Rightarrow> byte list \<Rightarrow> jsstring \<Rightarrow> jsstring \<Rightarrow> jsstring \<Rightarrow> js_error + jsstring" where
  "cross_raw P iv key1 key2 plaintext =
     (case encryptText_raw P iv plaintext key1 of
        Inl e \<Rightarrow> Inl e
      | Inr r \<Rightarrow> Inr (decryptText_raw P r key2))"




text \<open>
  A reader of the age variant's record that holds no key: it cuts the armour off, decodes
  the base64 payload and reads the bytes as UTF-8.
\<close>

definition age_recover :: "jsstring \<Rightarrow> js_error + jsstring" where
  "age_recover r =
     (let skip = length age_header + length (str ''Recipient: '') + length AGE_PUBLIC_KEY + 2;
          payload = take (length r - skip - length age_footer) (drop skip r) in
      case atob payload of
        Inl e \<Rightarrow> Inl e
      | Inr bin \<Rightarrow> Inr (from_usv (utf8_decode 0 0 0 0x80 0xBF bin)))"

section \<open>UTF-8: decoding what was encoded\<close>

lemma dec_ascii: "b \<le> 0x7F \<Longrightarrow> utf8_decode 0 0 0 0x80 0xBF (b # bs) = b # utf8_decode 0 0 0 0x80 0xBF bs"
  by simp

lemma dec_lead2:
  "0xC2 \<le> b \<Longrightarrow> b \<le> 0xDF \<Longrightarrow>
   utf8_decode 0 0 0 0x80 0xBF (b # bs) = utf8_decode (b mod 0x20) 1 0 0x80 0xBF bs"
  by simp

lemma dec_lead3:
  "0xE0 \<le> b \<Longrightarrow> b \<le> 0xEF \<Longrightarrow>
   utf8_decode 0 0 0 0x80 0xBF (b # bs) =
   utf8_decode (b mod 0x10) 2 0 (if b = 0xE0 then 0xA0 else 0x80) (if b = 0xED then 0x9F else 0xBF) bs"
  by simp

lemma dec_lead4:
  "0xF0 \<le> b \<Longrightarrow> b \<le> 0xF4 \<Longrightarrow>
   utf8_decode 0 0 0 0x80 0xBF (b # bs) =
   utf8_decode (b mod 8) 3 0 (if b = 0xF0 then 0x90 else 0x80) (if b = 0xF4 then 0x8F else 0xBF) bs"
  by simp

lemma dec_last:
  "lo \<le> b \<Longrightarrow> b \<le> hi \<Longrightarrow> need = seen + 1 \<Longrightarrow>
   utf8_decode cp need seen lo hi (b # bs) = (cp * 0x40 + b mod 0x40) # utf8_decode 0 0 0 0x80 0xBF bs"
  by simp

lemma dec_more:
  "lo \<le> b \<Longrightarrow> b \<le> hi \<Longrightarrow> need \<noteq> 0 \<Longrightarrow> seen + 1 \<noteq> need \<Longrightarrow>
   utf8_decode cp need seen lo hi (b # bs) = utf8_decode (cp * 0x40 + b mod 0x40) need (seen + 1) 0x80 0xBF bs"
  by simp


declare utf8_decode.simps [simp del]

lemma sextet_join: "(c::nat) div (k * 64) * 64 + c div k mod 64 = c div k"
  by (simp add: div_mult2_eq)

lemma lead_mod: "q < m \<Longrightarrow> (k * m + q) mod m = (q::nat)"
  by simp

lemma mod_window:
  assumes "k * m \<le> q" "q < k * m + r" "r \<le> m"
  shows "q mod m < (r::nat)" and "q mod m = q - k * m"
proof -
  obtain d where d: "q = k * m + d" using assms(1) by (auto simp: le_iff_add)
  with assms have "d < m" "d < r" by simp_all
  then show "q mod m < r" "q mod m = q - k * m" using d by simp_all
qed

lemma cont_mod: "(128 + x mod 64) mod 64 = (x mod 64 :: nat)"
proof -
  have "(2 * 64 + x mod 64) mod 64 = x mod 64 mod 64" by (rule mod_mult_self3)
  then show ?thesis by simp
qed

lemma cont_range: "128 \<le> 128 + x mod 64" "128 + x mod 64 \<le> (191::nat)"
proof -
  have "x mod 64 < 64" by simp
  then show "128 + x mod 64 \<le> 191" by linarith
qed simp

lemma utf8_decode_encode_cp:
  assumes "scalar c"
  shows "utf8_decode 0 0 0 0x80 0xBF (utf8_encode_cp c @ bs) = c # utf8_decode 0 0 0 0x80 0xBF bs"
proof -
  consider "c < 0x80" | "0x80 \<le> c" "c < 0x800" | "0x800 \<le> c" "c < 0x10000" | "0x10000 \<le> c"
    by linarith
  then show ?thesis
  proof cases
    case 1
    then show ?thesis by (simp add: utf8_encode_cp_def dec_ascii)
  next
    case 2
    define q where "q = c div 0x40"
    define b1 where "b1 = 0xC0 + q"
    define b2 where "b2 = 0x80 + c mod 0x40"
    have enc: "utf8_encode_cp c = [b1, b2]"
      using 2 by (simp add: utf8_encode_cp_def b1_def b2_def q_def)
    have q: "2 \<le> q" "q < 32"
      using 2 by (simp_all add: q_def less_mult_imp_div_less less_eq_div_iff_mult_less_eq)
    have r1: "0xC2 \<le> b1" "b1 \<le> 0xDF" using q unfolding b1_def by linarith+
    have m1: "b1 mod 0x20 = q" using lead_mod [OF q(2), of 6] by (simp add: b1_def)
    have r2: "0x80 \<le> b2" "b2 \<le> 0xBF" unfolding b2_def by (rule cont_range)+
    have m2: "b2 mod 0x40 = c mod 0x40" unfolding b2_def by (rule cont_mod)
    have "utf8_decode 0 0 0 0x80 0xBF (b1 # b2 # bs) = utf8_decode q 1 0 0x80 0xBF (b2 # bs)"
      using dec_lead2 [OF r1] m1 by simp
    also have "\<dots> = (q * 0x40 + c mod 0x40) # utf8_decode 0 0 0 0x80 0xBF bs"
      using dec_last [OF r2, of 1 0] m2 by simp
    finally show ?thesis by (simp add: enc q_def)
  next
    case 3
    define q1 where "q1 = c div 0x1000"
    define q2 where "q2 = c div 0x40"
    define b1 where "b1 = 0xE0 + q1"
    define b2 where "b2 = 0x80 + q2 mod 0x40"
    define b3 where "b3 = 0x80 + c mod 0x40"
    define lo where "lo = (if b1 = 0xE0 then 0xA0 else (0x80::nat))"
    define hi where "hi = (if b1 = 0xED then 0x9F else (0xBF::nat))"
    have enc: "utf8_encode_cp c = [b1, b2, b3]"
      using 3 by (simp add: utf8_encode_cp_def b1_def b2_def b3_def q1_def q2_def)
    have q1: "q1 < 16" using 3 by (simp add: q1_def less_mult_imp_div_less)
    have r1: "0xE0 \<le> b1" "b1 \<le> 0xEF" using q1 unfolding b1_def by linarith+
    have m1: "b1 mod 0x10 = q1" using lead_mod [OF q1, of 14] by (simp add: b1_def)
    have r2: "0x80 \<le> b2" "b2 \<le> 0xBF" unfolding b2_def by (rule cont_range)+
    have r2lo: "lo \<le> b2"
    proof (cases "b1 = 0xE0")
      case True
      then have "q1 = 0" by (simp add: b1_def)
      then have "c < 0x1000" by (simp add: q1_def div_eq_0_iff)
      then have "q2 < 64" by (simp add: q2_def less_mult_imp_div_less)
      moreover have "32 \<le> q2" using 3 by (simp add: q2_def less_eq_div_iff_mult_less_eq)
      ultimately show ?thesis using True by (simp add: lo_def b2_def)
    next
      case False
      then show ?thesis using r2 by (simp add: lo_def)
    qed
    have r2hi: "b2 \<le> hi"
    proof (cases "b1 = 0xED")
      case True
      then have "q1 = 13" by (simp add: b1_def)
      then have "13 \<le> c div 0x1000" by (simp add: q1_def)
      then have "0xD000 \<le> c" by (simp add: less_eq_div_iff_mult_less_eq)
      moreover have "c div 0x1000 < 14" using \<open>q1 = 13\<close> by (simp add: q1_def)
      then have "c < 0xE000" by (simp add: div_less_iff_less_mult)
      ultimately have "c < 0xD800" using assms unfolding scalar_def by linarith
      then have up: "q2 < 13 * 64 + 32" by (simp add: q2_def less_mult_imp_div_less)
      have low: "13 * 64 \<le> q2" using \<open>0xD000 \<le> c\<close> by (simp add: q2_def less_eq_div_iff_mult_less_eq)
      have "q2 mod 64 < 32" using mod_window(1) [OF low up] by simp
      then show ?thesis using True by (simp add: hi_def b2_def)
    next
      case False
      then show ?thesis using r2 by (simp add: hi_def)
    qed
    have m2: "q1 * 0x40 + b2 mod 0x40 = q2"
      unfolding b2_def q1_def q2_def using sextet_join [of c 64] by (simp add: cont_mod)
    have r3: "0x80 \<le> b3" "b3 \<le> 0xBF" unfolding b3_def by (rule cont_range)+
    have m3: "b3 mod 0x40 = c mod 0x40" unfolding b3_def by (rule cont_mod)
    have "utf8_decode 0 0 0 0x80 0xBF (b1 # b2 # b3 # bs) = utf8_decode q1 2 0 lo hi (b2 # b3 # bs)"
      using dec_lead3 [OF r1] m1 by (simp add: lo_def hi_def)
    also have "\<dots> = utf8_decode q2 2 1 0x80 0xBF (b3 # bs)"
      using dec_more [OF r2lo r2hi, of 2 0] m2 by simp
    also have "\<dots> = (q2 * 0x40 + c mod 0x40) # utf8_decode 0 0 0 0x80 0xBF bs"
      using dec_last [OF r3, of 2 1] m3 by simp
    finally show ?thesis by (simp add: enc q2_def)
  next
    case 4
    define q1 where "q1 = c div 0x40000"
    define q2 where "q2 = c div 0x1000"
    define q3 where "q3 = c div 0x40"
    define b1 where "b1 = 0xF0 + q1"
    define b2 where "b2 = 0x80 + q2 mod 0x40"
    define b3 where "b3 = 0x80 + q3 mod 0x40"
    define b4 where "b4 = 0x80 + c mod 0x40"
    define lo where "lo = (if b1 = 0xF0 then 0x90 else (0x80::nat))"
    define hi where "hi = (if b1 = 0xF4 then 0x8F else (0xBF::nat))"
    have c: "c < 0x110000" using assms unfolding scalar_def by simp
    have enc: "utf8_encode_cp c = [b1, b2, b3, b4]"
      using 4 by (simp add: utf8_encode_cp_def b1_def b2_def b3_def b4_def q1_def q2_def q3_def)
    have q1: "q1 < 5" using c by (simp add: q1_def less_mult_imp_div_less)
    have r1: "0xF0 \<le> b1" "b1 \<le> 0xF4" using q1 unfolding b1_def by linarith+
    have "q1 < 8" using q1 by simp
    then have m1: "b1 mod 8 = q1" using lead_mod [of q1 8 30] by (simp add: b1_def)
    have r2: "0x80 \<le> b2" "b2 \<le> 0xBF" unfolding b2_def by (rule cont_range)+
    have r2lo: "lo \<le> b2"
    proof (cases "b1 = 0xF0")
      case True
      then have "q1 = 0" by (simp add: b1_def)
      then have "c < 0x40000" by (simp add: q1_def div_eq_0_iff)
      then have "q2 < 64" by (simp add: q2_def less_mult_imp_div_less)
      moreover have "16 \<le> q2" using 4 by (simp add: q2_def less_eq_div_iff_mult_less_eq)
      ultimately show ?thesis using True by (simp add: lo_def b2_def)
    next
      case False
      then show ?thesis using r2 by (simp add: lo_def)
    qed
    have r2hi: "b2 \<le> hi"
    proof (cases "b1 = 0xF4")
      case True
      then have "q1 = 4" by (simp add: b1_def)
      then have "4 \<le> c div 0x40000" by (simp add: q1_def)
      then have "0x100000 \<le> c" by (simp add: less_eq_div_iff_mult_less_eq)
      have up: "q2 < 4 * 64 + 16" using c by (simp add: q2_def less_mult_imp_div_less)
      have low: "4 * 64 \<le> q2" using \<open>0x100000 \<le> c\<close> by (simp add: q2_def less_eq_div_iff_mult_less_eq)
      have "q2 mod 64 < 16" using mod_window(1) [OF low up] by simp
      then show ?thesis using True by (simp add: hi_def b2_def)
    next
      case False
      then show ?thesis using r2 by (simp add: hi_def)
    qed
    have m2: "q1 * 0x40 + b2 mod 0x40 = q2"
      unfolding b2_def q1_def q2_def using sextet_join [of c 4096] by (simp add: cont_mod)
    have r3: "0x80 \<le> b3" "b3 \<le> 0xBF" unfolding b3_def by (rule cont_range)+
    have m3: "q2 * 0x40 + b3 mod 0x40 = q3"
      unfolding b3_def q2_def q3_def using sextet_join [of c 64] by (simp add: cont_mod)
    have r4: "0x80 \<le> b4" "b4 \<le> 0xBF" unfolding b4_def by (rule cont_range)+
    have m4: "b4 mod 0x40 = c mod 0x40" unfolding b4_def by (rule cont_mod)
    have "utf8_decode 0 0 0 0x80 0xBF (b1 # b2 # b3 # b4 # bs) = utf8_decode q1 3 0 lo hi (b2 # b3 # b4 # bs)"
      using dec_lead4 [OF r1] m1 by (simp add: lo_def hi_def)
    also have "\<dots> = utf8_decode q2 3 1 0x80 0xBF (b3 # b4 # bs)"
      using dec_more [OF r2lo r2hi, of 3 0] m2 by simp
    also have "\<dots> = utf8_decode q3 3 2 0x80 0xBF (b4 # bs)"
      using dec_more [OF r3, of 3 1] m3 by (simp add: numeral_2_eq_2)
    also have "\<dots> = (q3 * 0x40 + c mod 0x40) # utf8_decode 0 0 0 0x80 0xBF bs"
      using dec_last [OF r4, of 3 2] m4 by simp
    finally show ?thesis by (simp add: enc q3_def)
  qed
qed

subsection \<open>Whole texts\<close>

lemma utf8_decode_concat:
  "list_all scalar cs \<Longrightarrow> utf8_decode 0 0 0 0x80 0xBF (concat (map utf8_encode_cp cs)) = cs"
  by (induction cs) (simp_all add: utf8_decode_encode_cp utf8_decode.simps)

lemma utf8_encode_cp_byte: "scalar c \<Longrightarrow> list_all (\<lambda>b. b < 256) (utf8_encode_cp c)"
proof -
  assume s: "scalar c"
  have m: "0x80 + x mod 0x40 < (256::nat)" for x
    using cont_range(2) [of x] by linarith
  consider "c < 0x80" | "0x80 \<le> c" "c < 0x800" | "0x800 \<le> c" "c < 0x10000" | "0x10000 \<le> c"
    by linarith
  then show ?thesis
  proof cases
    case 1
    then show ?thesis by (simp add: utf8_encode_cp_def)
  next
    case 2
    then have "c div 0x40 < 32" by (simp add: less_mult_imp_div_less)
    then have "0xC0 + c div 0x40 < 256" by linarith
    then show ?thesis using 2 m by (simp add: utf8_encode_cp_def)
  next
    case 3
    then have "c div 0x1000 < 16" by (simp add: less_mult_imp_div_less)
    then have "0xE0 + c div 0x1000 < 256" by linarith
    then show ?thesis using 3 m by (simp add: utf8_encode_cp_def)
  next
    case 4
    have "c < 0x110000" using s by (simp add: scalar_def)
    then have "c div 0x40000 < 5" by (simp add: less_mult_imp_div_less)
    then have "0xF0 + c div 0x40000 < 256" by linarith
    then show ?thesis using 4 m by (simp add: utf8_encode_cp_def)
  qed
qed

lemma unat_of_nat_byte: "b < 256 \<Longrightarrow> unat (of_nat b :: byte) = b"
  by (simp add: unat_of_nat)

lemma map_unat_of_nat: "list_all (\<lambda>b. b < 256) bs \<Longrightarrow> map unat (map of_nat bs :: byte list) = bs"
  by (induction bs) (simp_all add: unat_of_nat_byte)

lemma concat_bytes:
  "list_all scalar cs \<Longrightarrow> list_all (\<lambda>b. b < 256) (concat (map utf8_encode_cp cs))"
  by (induction cs) (simp_all add: utf8_encode_cp_byte)

lemma surrogate_pair_scalar:
  "scalar (0x10000 + 0x400 * (u mod 0x400) + v mod 0x400)"
proof -
  have "u mod 0x400 < 0x400" "v mod 0x400 < 0x400" by simp_all
  then show ?thesis unfolding scalar_def by linarith
qed

lemma to_usv_scalar: "list_all (\<lambda>u. u < 0x10000) s \<Longrightarrow> list_all scalar (to_usv s)"
proof (induction s rule: to_usv.induct)
  case 1
  then show ?case by simp
next
  case (2 u)
  then show ?case by (auto simp: scalar_def is_high_def is_low_def)
next
  case (3 u v us)
  then show ?case
    by (auto simp: surrogate_pair_scalar) (auto simp: scalar_def is_high_def is_low_def)
qed

lemma decode_encode:
  assumes "list_all (\<lambda>u. u < 0x10000) s"
  shows "TextDecoder_decode (TextEncoder_encode s) = from_usv (strip_bom (to_usv s))"
proof -
  have sc: "list_all scalar (to_usv s)" using assms by (rule to_usv_scalar)
  then show ?thesis
    by (simp add: TextDecoder_decode_def TextEncoder_encode_def map_unat_of_nat concat_bytes
        utf8_decode_concat del: map_map)
qed

lemma wellformed_units: "wellformed s \<Longrightarrow> list_all (\<lambda>u. u < 0x10000) s"
  by (induction s rule: wellformed.induct)
     (auto simp: is_high_def is_low_def split: if_splits)

lemma high_mod: "is_high u \<Longrightarrow> 0xD800 + u mod 0x400 = u"
proof -
  assume "is_high u"
  then have "54 * 0x400 \<le> u" "u < 54 * 0x400 + 0x400" by (simp_all add: is_high_def)
  from mod_window(2) [OF this] show ?thesis using \<open>54 * 0x400 \<le> u\<close> by simp
qed

lemma low_mod: "is_low v \<Longrightarrow> 0xDC00 + v mod 0x400 = v"
proof -
  assume "is_low v"
  then have "55 * 0x400 \<le> v" "v < 55 * 0x400 + 0x400" by (simp_all add: is_low_def)
  from mod_window(2) [OF this] show ?thesis using \<open>55 * 0x400 \<le> v\<close> by simp
qed

lemma pair_split:
  "(0x400 * (u mod 0x400) + v mod 0x400) div 0x400 = (u mod 0x400 :: nat)"
  "(0x400 * (u mod 0x400) + v mod 0x400) mod 0x400 = (v mod 0x400 :: nat)"
  by simp_all

lemma from_to_usv: "wellformed s \<Longrightarrow> from_usv (to_usv s) = s"
proof (induction s rule: to_usv.induct)
  case 1
  then show ?case by simp
next
  case (2 u)
  then show ?case by simp
next
  case (3 u v us)
  show ?case
  proof (cases "is_high u")
    case True
    with 3 have lv: "is_low v" and wf: "wellformed us" by simp_all
    have "from_usv (to_usv us) = us" using 3(1) True lv wf by simp
    then show ?thesis using True lv by (simp add: pair_split high_mod low_mod)
  next
    case False
    with 3 have "u < 0x10000" "\<not> is_low u" "wellformed (v # us)" by simp_all
    then show ?thesis using False 3 by simp
  qed
qed

lemma to_usv_no_bom: "wellformed s \<Longrightarrow> \<not> starts_with_bom s \<Longrightarrow> strip_bom (to_usv s) = to_usv s"
  by (induction s rule: to_usv.induct) (auto simp: is_high_def is_low_def split: if_splits)

lemma text_roundtrip:
  "wellformed s \<Longrightarrow> \<not> starts_with_bom s \<Longrightarrow> TextDecoder_decode (TextEncoder_encode s) = s"
  by (simp add: decode_encode wellformed_units to_usv_no_bom from_to_usv)

lemma to_usv_bom: "to_usv (0xFEFF # s) = 0xFEFF # to_usv s"
  by (cases s) (simp_all add: is_high_def is_low_def)

lemma text_bom_lost:
  "wellformed s \<Longrightarrow> TextDecoder_decode (TextEncoder_encode (0xFEFF # s)) = s"
  by (simp add: decode_encode wellformed_units to_usv_bom from_to_usv)

section \<open>Base64: \<open>atob\<close> after \<open>btoa\<close>\<close>

lemma divmod_join: "r < m \<Longrightarrow> (q * m + r) div m = (q::nat)" "r < m \<Longrightarrow> (q * m + r) mod m = (r::nat)"
  by simp_all

lemma byte_div16: "b < 256 \<Longrightarrow> b div 16 < (16::nat)"
  by (simp add: less_mult_imp_div_less)

lemma byte_div64: "c < 256 \<Longrightarrow> c div 64 < (4::nat)"
  by (simp add: less_mult_imp_div_less)

lemma byte_div4: "a < 256 \<Longrightarrow> a div 4 < (64::nat)"
  by (simp add: less_mult_imp_div_less)

lemma sextet2: "b < 256 \<Longrightarrow> (a mod 4 * 16 + b div 16) div 16 = (a mod 4 :: nat)"
  "b < 256 \<Longrightarrow> (a mod 4 * 16 + b div 16) mod 16 = (b div 16 :: nat)"
  using divmod_join [OF byte_div16, of b "a mod 4"] by simp_all

lemma sextet3: "c < 256 \<Longrightarrow> (b mod 16 * 4 + c div 64) div 4 = (b mod 16 :: nat)"
  "c < 256 \<Longrightarrow> (b mod 16 * 4 + c div 64) mod 4 = (c div 64 :: nat)"
  using divmod_join [OF byte_div64, of c "b mod 16"] by simp_all

lemma sextet2_bound: "b < 256 \<Longrightarrow> a mod 4 * 16 + b div 16 < (64::nat)"
proof -
  assume "b < 256"
  then have "b div 16 < 16" by (rule byte_div16)
  moreover have "a mod 4 < 4" by simp
  ultimately show ?thesis by linarith
qed

lemma sextet3_bound: "c < 256 \<Longrightarrow> b mod 16 * 4 + c div 64 < (64::nat)"
proof -
  assume "c < 256"
  then have "c div 64 < 4" by (rule byte_div64)
  moreover have "b mod 16 < 16" by simp
  ultimately show ?thesis by linarith
qed

lemma sextet_last_bound: "b mod 16 * 4 < (64::nat)" "a mod 4 * 16 < (64::nat)"
proof -
  have "b mod 16 < 16" by simp
  then show "b mod 16 * 4 < 64" by linarith
  have "a mod 4 < 4" by simp
  then show "a mod 4 * 16 < 64" by linarith
qed

lemma unsextets_sextets: "list_all (\<lambda>u. u < 256) s \<Longrightarrow> unsextets (sextets s) = s"
proof (induction s rule: sextets.induct)
  case (1 a b c r)
  then show ?case by (simp add: byte_div16 byte_div64)
next
  case (2 a b)
  then show ?case by (simp add: byte_div16)
next
  case (3 a)
  then show ?case by simp
next
  case 4
  then show ?case by simp
qed

lemma sextets_bound: "list_all (\<lambda>u. u < 256) s \<Longrightarrow> list_all (\<lambda>x. x < 64) (sextets s)"
proof (induction s rule: sextets.induct)
  case (1 a b c r)
  then show ?case by (simp add: sextet2_bound sextet3_bound byte_div4)
next
  case (2 a b)
  then show ?case by (simp add: sextet2_bound sextet_last_bound byte_div4)
next
  case (3 a)
  then show ?case by (simp add: sextet_last_bound byte_div4)
next
  case 4
  then show ?case by simp
qed

lemma b64_value_char: "i < 64 \<Longrightarrow> b64_value (b64_char i) = Some i"
  unfolding b64_value_def b64_char_def by (simp split: if_splits) linarith

lemma b64_char_not_pad: "b64_char i \<noteq> 61"
  unfolding b64_char_def by (simp split: if_splits) linarith

lemma b64_char_not_space: "\<not> ascii_whitespace (b64_char i)"
  unfolding b64_char_def ascii_whitespace_def by (simp split: if_splits) linarith

lemma length3_mod: "length (a # b # c # r) mod 3 = length r mod 3"
proof -
  have "length (a # b # c # r) = 1 * 3 + length r" by simp
  then show ?thesis by (simp only: mod_mult_self3)
qed

lemma length_sextets_mod4: "length (sextets s) mod 4 \<noteq> 1"
proof (induction s rule: sextets.induct)
  case (1 a b c r)
  have "length (sextets (a # b # c # r)) = 1 * 4 + length (sextets r)" by simp
  then have "length (sextets (a # b # c # r)) mod 4 = length (sextets r) mod 4"
    by (simp only: mod_mult_self3)
  with 1 show ?case by simp
qed simp_all

lemma strip_padding_btoa:
  assumes "length X mod 4 = 0" "X = [] \<or> last X \<noteq> 61"
  shows "strip_padding (X @ map b64_char (sextets s) @ replicate ((3 - length s mod 3) mod 3) 61) =
         X @ map b64_char (sextets s)"
  using assms
proof (induction s arbitrary: X rule: sextets.induct)
  case (1 a b c r)
  let ?Y = "X @ map b64_char [a div 4, a mod 4 * 16 + b div 16, b mod 16 * 4 + c div 64, c mod 64]"
  have "length ?Y = 1 * 4 + length X" by simp
  then have "length ?Y mod 4 = length X mod 4" by (simp only: mod_mult_self3)
  then have l: "length ?Y mod 4 = 0" using "1.prems" by simp
  have n: "?Y = [] \<or> last ?Y \<noteq> 61" by (simp add: b64_char_not_pad)
  show ?case using "1.IH" [OF l n] by (simp only: length3_mod) simp
next
  case (2 a b)
  have "length (X @ [b64_char (a div 4), b64_char (a mod 4 * 16 + b div 16), b64_char (b mod 16 * 4), 61]) = 1 * 4 + length X"
    by simp
  then have "length (X @ [b64_char (a div 4), b64_char (a mod 4 * 16 + b div 16), b64_char (b mod 16 * 4), 61]) mod 4 = 0"
    using "2.prems" by (simp only: mod_mult_self3)
  then show ?case
    by (simp add: strip_padding_def butlast_append b64_char_not_pad)
next
  case (3 a)
  have "length (X @ [b64_char (a div 4), b64_char (a mod 4 * 16), 61, 61]) = 1 * 4 + length X"
    by simp
  then have "length (X @ [b64_char (a div 4), b64_char (a mod 4 * 16), 61, 61]) mod 4 = 0"
    using "3.prems" by (simp only: mod_mult_self3)
  then show ?case
    by (simp add: strip_padding_def butlast_append b64_char_not_pad numeral_2_eq_2)
next
  case 4
  then show ?case by (auto simp: strip_padding_def)
qed

lemma pad_not_space: "\<not> ascii_whitespace 61"
  by (simp add: ascii_whitespace_def)

lemma unat_byte: "unat (b :: byte) < 256"
  using unsigned_less [of b, where 'a = nat] by simp

lemma btoa_Inr:
  "list_all (\<lambda>u. u < 256) s \<Longrightarrow>
   btoa s = Inr (map b64_char (sextets s) @ replicate ((3 - length s mod 3) mod 3) 61)"
  by (auto simp: btoa_def list_ex_iff list_all_iff)

lemma atob_btoa:
  assumes "list_all (\<lambda>u. u < 256) s"
  shows "\<exists>e. btoa s = Inr e \<and> atob e = Inr s"
proof -
  let ?d = "map b64_char (sextets s)"
  let ?e = "?d @ replicate ((3 - length s mod 3) mod 3) 61"
  have f: "filter (\<lambda>c. \<not> ascii_whitespace c) ?e = ?e"
    by (rule filter_True) (auto simp: b64_char_not_space pad_not_space)
  have p: "strip_padding ?e = ?d"
    using strip_padding_btoa [of "[]" s] by simp
  have l: "length ?d mod 4 \<noteq> 1" using length_sextets_mod4 [of s] by simp
  have b: "list_all (\<lambda>x. x < 64) (sextets s)" using assms by (rule sextets_bound)
  then have v: "\<not> list_ex (\<lambda>c. b64_value c = None) ?d"
    by (auto simp: list_ex_iff list_all_iff b64_value_char)
  have m: "map (\<lambda>c. the (b64_value c)) ?d = sextets s"
    using b by (auto simp: list_all_iff b64_value_char map_idI)
  have "atob ?e = Inr s"
    unfolding atob_def f p Let_def m using l v by (simp add: unsextets_sextets [OF assms])
  then show ?thesis using btoa_Inr [OF assms] by simp
qed

lemma fromCharCode_bytes: "list_all (\<lambda>u. u < 256) (fromCharCode bs)"
  by (simp add: fromCharCode_def list_all_iff unat_byte)

lemma charCodes_fromCharCode: "charCodes (fromCharCode bs) = bs"
  by (simp add: charCodes_def fromCharCode_def map_idI)

lemma atob_btoa_bytes: "\<exists>e. btoa (fromCharCode bs) = Inr e \<and> atob e = Inr (fromCharCode bs)"
  by (rule atob_btoa [OF fromCharCode_bytes])

section \<open>The JSON record can be read back\<close>

lemma show_byte_digits: "n < 256 \<Longrightarrow> list_all (\<lambda>d. 48 \<le> d \<and> d \<le> 57) (show_byte n)"
proof -
  assume "n < 256"
  have m: "x mod 10 \<le> (9::nat)" for x
  proof -
    have "x mod 10 < 10" by simp
    then show ?thesis by linarith
  qed
  have "n div 100 < 3" using \<open>n < 256\<close> by (simp add: less_mult_imp_div_less)
  then have h: "n div 100 \<le> 9" by linarith
  have t: "n < 100 \<Longrightarrow> n div 10 \<le> 9"
  proof -
    assume "n < 100"
    then have "n div 10 < 10" by (simp add: less_mult_imp_div_less)
    then show ?thesis by linarith
  qed
  show ?thesis using m h t by (simp add: show_byte_def)
qed

lemma show_byte_not_empty: "show_byte n \<noteq> []"
  by (simp add: show_byte_def)

lemma regroup: "10 * (10 * a + b) + c = 100 * a + (10 * b + (c::nat))"
  by simp

lemma decimal3: "100 * (n div 100) + (10 * (n div 10 mod 10) + n mod 10) = (n::nat)"
proof -
  have "n div 100 = n div 10 div 10" by (simp add: div_mult2_eq)
  then have "10 * (n div 100) + n div 10 mod 10 = n div 10" by simp
  then have "10 * (10 * (n div 100) + n div 10 mod 10) + n mod 10 = n" by simp
  then show ?thesis by (simp only: regroup)
qed

lemma read_nat_show_byte: "read_nat (show_byte n) = n"
proof -
  consider "n < 10" | "10 \<le> n" "n < 100" | "100 \<le> n" by linarith
  then show ?thesis
  proof cases
    case 1
    then show ?thesis by (simp add: read_nat_def show_byte_def)
  next
    case 2
    then show ?thesis by (simp add: read_nat_def show_byte_def)
  next
    case 3
    have "read_nat (show_byte n) = 10 * (10 * (n div 100) + n div 10 mod 10) + n mod 10"
      using 3 by (simp add: read_nat_def show_byte_def)
    also have "\<dots> = 100 * (n div 100) + (10 * (n div 10 mod 10) + n mod 10)"
      by (rule regroup)
    finally show ?thesis by (simp only: decimal3)
  qed
qed

lemma show_byte_no_leading_zero: "hd (show_byte n) = 48 \<Longrightarrow> length (show_byte n) = 1"
proof -
  assume h: "hd (show_byte n) = 48"
  consider "n < 10" | "10 \<le> n" "n < 100" | "100 \<le> n" by linarith
  then show ?thesis
  proof cases
    case 1
    then show ?thesis by (simp add: show_byte_def)
  next
    case 2
    then have "1 \<le> n div 10" by (simp add: less_eq_div_iff_mult_less_eq)
    then show ?thesis using h 2 by (simp add: show_byte_def)
  next
    case 3
    then have "1 \<le> n div 100" by (simp add: less_eq_div_iff_mult_less_eq)
    then show ?thesis using h 3 by (simp add: show_byte_def)
  qed
qed

lemma sim_number_show_byte: "sim_number (show_byte (unat (b :: byte))) = Some b"
proof -
  let ?n = "unat b"
  have n: "?n < 256" by (rule unat_byte)
  have d: "\<not> list_ex (\<lambda>d. d < 48 \<or> 57 < d) (show_byte ?n)"
    using show_byte_digits [OF n] by (auto simp: list_ex_iff list_all_iff)
  have z: "\<not> (hd (show_byte ?n) = 48 \<and> 1 < length (show_byte ?n))"
    using show_byte_no_leading_zero [of ?n] by linarith
  show ?thesis
    unfolding sim_number_def using d z by (simp add: show_byte_not_empty read_nat_show_byte)
qed

lemma split_on_none: "c \<notin> set x \<Longrightarrow> split_on c x = [x]"
  by (induction x) auto

lemma split_on_append: "c \<notin> set x \<Longrightarrow> split_on c (x @ c # r) = x # split_on c r"
  by (induction x) (auto split: list.splits)

lemma split_on_commas:
  "xs \<noteq> [] \<Longrightarrow> list_all (\<lambda>x. 44 \<notin> set x) xs \<Longrightarrow> split_on 44 (commas xs) = xs"
  by (induction xs rule: commas.induct) (simp_all add: split_on_none split_on_append)

lemma commas_chars:
  "list_all (\<lambda>x. list_all P x) xs \<Longrightarrow> P 44 \<Longrightarrow> list_all P (commas xs)"
  by (induction xs rule: commas.induct) simp_all

lemma commas_empty: "list_all (\<lambda>x. x \<noteq> []) xs \<Longrightarrow> commas xs = [] \<longleftrightarrow> xs = []"
  by (induction xs rule: commas.induct) simp_all

lemma body_digits_no_comma:
  "list_all (\<lambda>x. 44 \<notin> set x) (map (\<lambda>b. show_byte (unat (b::byte))) bs)"
proof -
  have "44 \<notin> set (show_byte (unat b))" for b :: byte
    using show_byte_digits [OF unat_byte, of b] by (auto simp: list_all_iff)
  then show ?thesis by (simp add: list_all_iff)
qed

lemma body_no_bracket:
  "list_all (\<lambda>c. c \<noteq> 93) (commas (map (\<lambda>b. show_byte (unat (b::byte))) bs))"
proof (rule commas_chars)
  have "list_all (\<lambda>c. c \<noteq> 93) (show_byte (unat b))" for b :: byte
    using show_byte_digits [OF unat_byte, of b] by (auto simp: list_all_iff)
  then show "list_all (list_all (\<lambda>c. c \<noteq> 93)) (map (\<lambda>b. show_byte (unat (b::byte))) bs)"
    by (simp add: list_all_iff)
qed simp

lemma sim_array_body: "sim_array (commas (map (\<lambda>b. show_byte (unat (b::byte))) bs)) = Some bs"
proof (cases "bs = []")
  case True
  then show ?thesis by (simp add: sim_array_def)
next
  case False
  let ?xs = "map (\<lambda>b. show_byte (unat b)) bs"
  have ne: "commas ?xs \<noteq> []"
    using False commas_empty [of ?xs] by (simp add: list_all_iff show_byte_not_empty)
  have sp: "split_on 44 (commas ?xs) = ?xs"
    using False by (simp add: split_on_commas body_digits_no_comma)
  have m: "map sim_number ?xs = map Some bs"
    by (simp add: sim_number_show_byte)
  show ?thesis
    unfolding sim_array_def Let_def sp m using ne by (simp add: list_ex_iff comp_def)
qed

lemma takeWhile_body:
  "list_all (\<lambda>c. c \<noteq> 93) body \<Longrightarrow> takeWhile (\<lambda>c. c \<noteq> 93) (body @ 93 # r) = body"
  by (simp add: list_all_iff takeWhile_append2)


lemma drop_open_iv: "drop 7 ((str ''{'' @ [34] @ str ''iv'' @ [34] @ str '':['') @ X) = X"
  by (simp add: str_def)

lemma take_open_iv:
  "take 7 ((str ''{'' @ [34] @ str ''iv'' @ [34] @ str '':['') @ X) =
   str ''{'' @ [34] @ str ''iv'' @ [34] @ str '':[''"
  by (simp add: str_def)

lemma take_open_data:
  "take 10 (93 # (str '','' @ [34] @ str ''data'' @ [34] @ str '':['') @ X) =
   str ''],'' @ [34] @ str ''data'' @ [34] @ str '':[''"
  by (simp add: str_def)

lemma drop_open_data:
  "drop 10 (93 # (str '','' @ [34] @ str ''data'' @ [34] @ str '':['') @ X) = X"
  by (simp add: str_def)

lemma JSON_stringify_shape:
  "JSON_stringify iv data =
     (str ''{'' @ [34] @ str ''iv'' @ [34] @ str '':['') @
     commas (map (\<lambda>b. show_byte (unat b)) iv) @
     93 # (str '','' @ [34] @ str ''data'' @ [34] @ str '':['') @
     commas (map (\<lambda>b. show_byte (unat b)) data) @ 93 # str ''}''"
  by (simp add: JSON_stringify_def show_array_def str_def)

lemma sim_parse_stringify: "sim_parse_record (JSON_stringify iv data) = Some (iv, data)"
proof -
  let ?bi = "commas (map (\<lambda>b. show_byte (unat b)) iv)"
  let ?bd = "commas (map (\<lambda>b. show_byte (unat b)) data)"
  let ?mid = "str '','' @ [34] @ str ''data'' @ [34] @ str '':[''"
  have ivs: "takeWhile (\<lambda>c. c \<noteq> 93) (?bi @ 93 # ?mid @ ?bd @ 93 # str ''}'') = ?bi"
    by (rule takeWhile_body [OF body_no_bracket])
  have r2: "drop (length ?bi) (?bi @ 93 # ?mid @ ?bd @ 93 # str ''}'') = 93 # ?mid @ ?bd @ 93 # str ''}''"
    by simp
  have ds: "takeWhile (\<lambda>c. c \<noteq> 93) (?bd @ 93 # str ''}'') = ?bd"
    by (rule takeWhile_body [OF body_no_bracket])
  have r4: "drop (length ?bd) (?bd @ 93 # str ''}'') = str '']}''"
    by (simp add: str_def)
  show ?thesis
    unfolding sim_parse_record_def Let_def JSON_stringify_shape drop_open_iv take_open_iv ivs r2
      take_open_data drop_open_data ds r4
    by (simp add: sim_array_body)
qed


section \<open>The instance and the composition of the steps\<close>

lemma xor_bytes_cancel: "length s = length p \<Longrightarrow> xor_bytes (xor_bytes p s) s = p"
  unfolding xor_bytes_def by (induction s p rule: list_induct2) (simp_all add: ac_simps)

lemma length_xor_bytes: "length (xor_bytes a b) = min (length a) (length b)"
  by (simp add: xor_bytes_def)

lemma length_sim_stream: "length (sim_stream key n) = n"
  by (simp add: sim_stream_def)

lemma length_sim_tag: "length (sim_tag key iv ct) = 16"
  by (simp add: sim_tag_def length_xor_bytes length_sim_stream)

lemma sim_gcm_correct: "sim_gcm_decrypt key iv (sim_gcm_encrypt key iv pt) = Some pt"
  by (simp add: sim_gcm_decrypt_def sim_gcm_encrypt_def Let_def length_sim_tag length_xor_bytes
      length_sim_stream xor_bytes_cancel)

lemma ascii_to_usv: "list_all (\<lambda>u. u < 128) s \<Longrightarrow> to_usv s = s"
  by (induction s rule: to_usv.induct) (auto simp: is_high_def is_low_def)

lemma ascii_utf8: "list_all (\<lambda>u. u < 128) s \<Longrightarrow> concat (map utf8_encode_cp s) = s"
  by (induction s) (simp_all add: utf8_encode_cp_def)

lemma ascii_encode: "list_all (\<lambda>u. u < 128) s \<Longrightarrow> TextEncoder_encode s = map of_nat s"
  by (simp add: TextEncoder_encode_def ascii_to_usv ascii_utf8)

lemma ascii_wellformed: "list_all (\<lambda>u. u < 128) s \<Longrightarrow> wellformed s"
  by (induction s rule: wellformed.induct) (auto simp: is_high_def is_low_def)

lemma length_padKey: "length (padKey key) = 32"
  by (simp add: padKey_def)

lemma ascii_padKey: "list_all (\<lambda>u. u < 128) key \<Longrightarrow> list_all (\<lambda>u. u < 128) (padKey key)"
  by (auto simp: padKey_def list_all_iff dest: in_set_takeD)

lemma sim_fields [simp]:
  "pbkdf2 sim = sim_pbkdf2" "gcm_encrypt sim = sim_gcm_encrypt" "gcm_decrypt sim = sim_gcm_decrypt"
  "parse_record sim = sim_parse_record" "block_encrypt sim = sim_block" "block_decrypt sim = sim_block"
  "max_args sim = 65535"
  by (simp_all add: sim_def)

subsection \<open>Encrypting, then decrypting\<close>

lemma roundtrip_bytes:
  assumes "deriveKey P pw = Inr key"
    and "ct = gcm_encrypt P key iv (TextEncoder_encode p)"
    and "parse_record P (JSON_stringify iv ct) = Some (iv, ct)"
    and "gcm_decrypt P key iv ct = Some (TextEncoder_encode p)"
  shows "roundtrip P iv pw p = Inr (TextDecoder_decode (TextEncoder_encode p))"
  using assms by (simp add: roundtrip_def encryptText_def decryptText_def)

lemma take_drop_iv: "length iv = 12 \<Longrightarrow> take 12 (iv @ ct) = iv \<and> drop 12 (iv @ ct) = ct"
  by simp

lemma encryptText_raw_Inr:
  assumes "key \<noteq> []" and "importKey (TextEncoder_encode (padKey key)) = Inr K"
    and "length iv + length (gcm_encrypt P K iv (TextEncoder_encode p)) \<le> max_args P"
  shows "\<exists>r. encryptText_raw P iv p key = Inr r \<and>
             btoa (fromCharCode (iv @ gcm_encrypt P K iv (TextEncoder_encode p))) = Inr r \<and>
             atob r = Inr (fromCharCode (iv @ gcm_encrypt P K iv (TextEncoder_encode p)))"
  using assms atob_btoa_bytes [of "iv @ gcm_encrypt P K iv (TextEncoder_encode p)"]
  by (auto simp: encryptText_raw_def spread_fromCharCode_def)

lemma decryptText_raw_unfold:
  assumes "key \<noteq> []" and "importKey (TextEncoder_encode (padKey key)) = Inr K"
    and "atob r = Inr (fromCharCode (iv @ ct))" and "length iv = 12"
  shows "decryptText_raw P r key =
           (case gcm_decrypt P K iv ct of None \<Rightarrow> failed_raw r
            | Some m \<Rightarrow> TextDecoder_decode m)"
  using assms by (simp add: decryptText_raw_def charCodes_fromCharCode Let_def)

lemma cross_raw_bytes:
  assumes "key1 \<noteq> []" "key2 \<noteq> []" "padKey key1 = padKey key2"
    and "importKey (TextEncoder_encode (padKey key1)) = Inr K"
    and "length iv = 12"
    and "gcm_decrypt P K iv (gcm_encrypt P K iv (TextEncoder_encode p)) = Some (TextEncoder_encode p)"
    and "length iv + length (gcm_encrypt P K iv (TextEncoder_encode p)) \<le> max_args P"
  shows "cross_raw P iv key1 key2 p = Inr (TextDecoder_decode (TextEncoder_encode p))"
proof -
  obtain r where r: "encryptText_raw P iv p key1 = Inr r"
    "atob r = Inr (fromCharCode (iv @ gcm_encrypt P K iv (TextEncoder_encode p)))"
    using encryptText_raw_Inr [OF assms(1) assms(4) assms(7)] by blast
  have K2: "importKey (TextEncoder_encode (padKey key2)) = Inr K"
    using assms(3,4) by simp
  show ?thesis
    unfolding cross_raw_def r(1) using decryptText_raw_unfold [OF assms(2) K2 r(2) assms(5)] assms(6)
    by simp
qed

lemma importKey_ascii:
  "list_all (\<lambda>u. u < 128) key \<Longrightarrow>
   importKey (TextEncoder_encode (padKey key)) = Inr (TextEncoder_encode (padKey key))"
  by (simp add: importKey_def ascii_encode ascii_padKey length_padKey)

lemma ascii_str_abc: "list_all (\<lambda>u. u < 128) (str ''abc'')" "list_all (\<lambda>u. u < 128) (str ''abc0'')"
  "list_all (\<lambda>u. u < 128) (str ''hi'')" "list_all (\<lambda>u. u < 128) (str ''pw'')"
  by (simp_all add: str_def)

lemma padKey_abc: "padKey (str ''abc'') = padKey (str ''abc0'')"
proof -
  have "replicate (Suc 28) (48::nat) = 48 # replicate 28 48" by (rule replicate_Suc)
  then show ?thesis by (simp add: padKey_def str_def)
qed

lemma to_usv_Cons: "\<not> is_high u \<Longrightarrow> \<not> is_low u \<Longrightarrow> to_usv (u # s) = u # to_usv s"
  by (cases s) simp_all

lemma non_ascii_key_rejected:
  "importKey (TextEncoder_encode (padKey [0xE9])) = Inl DataError"
proof -
  have p: "padKey [0xE9] = 0xE9 # replicate 31 48" by (simp add: padKey_def)
  have a: "list_all (\<lambda>u. u < 128) (replicate 31 (48::nat))" by (simp add: list_all_iff)
  have "to_usv (0xE9 # replicate 31 48) = 0xE9 # replicate 31 48"
    using to_usv_Cons [of "0xE9" "replicate 31 48"] ascii_to_usv [OF a]
    by (simp add: is_high_def is_low_def)
  then have "length (TextEncoder_encode (padKey [0xE9])) = 33"
    by (simp add: p TextEncoder_encode_def ascii_utf8 [OF a] utf8_encode_cp_def)
  then show ?thesis by (simp add: importKey_def)
qed

subsection \<open>Failure paths, the two batch loops, base64 text\<close>

lemma replicate_numeral: "replicate (numeral k) x = x # replicate (pred_numeral k) x"
  by (simp add: numeral_eq_Suc)

lemma decryptText_rejected:
  assumes "deriveKey P pw = Inr key"
    and "parse_record P s = Some (iv, ct)"
    and "gcm_decrypt P key iv ct = None"
  shows "decryptText P pw s = Inl (Error (str ''Bad password or corrupted data''))"
  using assms by (simp add: decryptText_def)

lemma decryptText_error:
  "decryptText P pw s = Inl e \<Longrightarrow> e = Error (str ''Bad password or corrupted data'')"
  by (auto simp: decryptText_def deriveKey_def split: option.splits)

lemma unlock_loop_eq:
  "unlock_loop P pw ns out =
     (if list_ex (\<lambda>n. isl (decryptText P pw (note_text n))) ns
      then Inl (Error (str ''Bad password or corrupted data''))
      else Inr (out @ map (\<lambda>n. \<lparr>note_id = note_id n,
                                 note_text = projr (decryptText P pw (note_text n))\<rparr>) ns))"
proof (induction ns arbitrary: out)
  case Nil
  then show ?case by simp
next
  case (Cons n ns)
  show ?case
  proof (cases "decryptText P pw (note_text n)")
    case (Inl e)
    then show ?thesis using decryptText_error [OF Inl] by simp
  next
    case (Inr dec)
    then show ?thesis using Cons.IH [of "out @ [\<lparr>note_id = note_id n, note_text = dec\<rparr>]"] by simp
  qed
qed

lemma decrypt_each_map:
  "decrypt_each P key ns =
     map (\<lambda>n. \<lparr>shown_id = note_id n, shown_text = decryptText_raw P (note_text n) key,
               isEncrypted = (note_text n \<noteq> decryptText_raw P (note_text n) key)\<rparr>) ns"
  by (induction ns) (simp_all add: Let_def)

lemma sextets_nonempty: "s \<noteq> [] \<Longrightarrow> sextets s \<noteq> []"
  by (cases s rule: sextets.cases) simp_all

lemma btoa_alphabet:
  assumes "btoa (fromCharCode bs) = Inr r"
  shows "list_all (\<lambda>c. c = 61 \<or> b64_value c \<noteq> None) r" and "bs \<noteq> [] \<Longrightarrow> r \<noteq> []"
proof -
  let ?s = "fromCharCode bs"
  have r: "r = map b64_char (sextets ?s) @ replicate ((3 - length ?s mod 3) mod 3) 61"
    using assms btoa_Inr [OF fromCharCode_bytes, of bs] by simp
  have "list_all (\<lambda>x. x < 64) (sextets ?s)" by (rule sextets_bound [OF fromCharCode_bytes])
  then show "list_all (\<lambda>c. c = 61 \<or> b64_value c \<noteq> None) r"
    unfolding r by (auto simp: list_all_iff b64_value_char)
  show "bs \<noteq> [] \<Longrightarrow> r \<noteq> []"
    unfolding r using sextets_nonempty [of ?s] by (simp add: fromCharCode_def)
qed


subsection \<open>Values of the instance\<close>

lemma str_abc_ne: "str ''abc'' \<noteq> []" "str ''abc0'' \<noteq> []" "str ''abc'' \<noteq> str ''abc0''"
  by (simp_all add: str_def)

lemma sim_key_pw:
  "deriveKey sim (str ''pw'') =
     Inr (map of_nat (str ''pwfixed-salt-for-derivation'') @ replicate 5 0)"
  "deriveKey sim (str ''pw2'') =
     Inr (map of_nat (str ''pw2fixed-salt-for-derivation'') @ replicate 4 0)"
  by (simp_all add: deriveKey_def sim_pbkdf2_def ascii_encode str_def)

lemma sim_record_pw:
  "sim_gcm_encrypt (map of_nat (str ''pwfixed-salt-for-derivation'') @ replicate 5 0)
     [1, 2, 3, 4, 5, 6, 7, 8, 9, 10, 11, 12] (TextEncoder_encode (str ''hi'')) =
   [24, 30, 73, 77, 93, 85, 69, 91, 91, 29, 66, 83, 95, 64, 21, 94, 87, 74]"
  by (simp add: sim_gcm_encrypt_def sim_tag_def sim_stream_def xor_bytes_def ascii_encode str_def
      replicate_numeral)

lemma sim_record_pw_wrong:
  "sim_gcm_decrypt (map of_nat (str ''pw2fixed-salt-for-derivation'') @ replicate 4 0)
     [1, 2, 3, 4, 5, 6, 7, 8, 9, 10, 11, 12]
     [24, 30, 73, 77, 93, 85, 69, 91, 91, 29, 66, 83, 95, 64, 21, 94, 87, 74] = None"
  by (simp add: sim_gcm_decrypt_def sim_tag_def sim_stream_def xor_bytes_def str_def
      replicate_numeral Let_def)

lemma sim_record_pw2:
  "sim_gcm_decrypt (map of_nat (str ''pw2fixed-salt-for-derivation'') @ replicate 4 0)
     [1, 2, 3, 4, 5, 6, 7, 8, 9, 10, 11, 12]
     [24, 30, 73, 77, 9, 90, 84, 70, 90, 84, 28, 65, 82, 88, 76, 21, 94, 87] = Some [104, 105]"
  by (simp add: sim_gcm_decrypt_def sim_tag_def sim_stream_def xor_bytes_def str_def
      replicate_numeral Let_def)

lemma decode_hi: "TextDecoder_decode [104, 105] = str ''hi''"
  by (simp add: TextDecoder_decode_def utf8_decode.simps str_def)

lemma sim_note_pw2:
  "decryptText sim (str ''pw2'')
     (JSON_stringify [1, 2, 3, 4, 5, 6, 7, 8, 9, 10, 11, 12]
        [24, 30, 73, 77, 9, 90, 84, 70, 90, 84, 28, 65, 82, 88, 76, 21, 94, 87]) = Inr (str ''hi'')"
  by (simp add: decryptText_def sim_key_pw(2) sim_parse_stringify sim_record_pw2 decode_hi)

lemma sim_note_pw:
  "decryptText sim (str ''pw2'')
     (JSON_stringify [1, 2, 3, 4, 5, 6, 7, 8, 9, 10, 11, 12]
        [24, 30, 73, 77, 93, 85, 69, 91, 91, 29, 66, 83, 95, 64, 21, 94, 87, 74]) =
     Inl (Error (str ''Bad password or corrupted data''))"
  by (simp add: decryptText_def sim_key_pw(2) sim_parse_stringify sim_record_pw_wrong)

lemma sim_key_abc:
  "TextEncoder_encode (padKey (str ''abc'')) =
     [97, 98, 99, 48, 48, 48, 48, 48, 48, 48, 48, 48, 48, 48, 48, 48, 48, 48, 48, 48, 48, 48, 48,
      48, 48, 48, 48, 48, 48, 48, 48, 48]"
proof -
  have "padKey (str ''abc'') = str ''abc00000000000000000000000000000''"
    by (simp add: padKey_def str_def replicate_numeral)
  moreover have "list_all (\<lambda>u. u < 128) (str ''abc00000000000000000000000000000'')"
    by (simp add: str_def)
  ultimately show ?thesis by (simp add: ascii_encode) (simp add: str_def)
qed

lemma sim_raw_ct:
  "sim_gcm_encrypt (TextEncoder_encode (padKey (str ''abc''))) [1, 2, 3, 4, 5, 6, 7, 8, 9, 10, 11, 12]
     (TextEncoder_encode (str ''hi'')) =
   [9, 11, 118, 118, 118, 34, 35, 32, 33, 46, 47, 44, 45, 42, 38, 38, 38, 38]"
  unfolding sim_key_abc
  by (simp add: sim_gcm_encrypt_def sim_tag_def sim_stream_def xor_bytes_def
      ascii_encode str_def replicate_numeral)

lemma sim_raw_record:
  "encryptText_raw sim [1, 2, 3, 4, 5, 6, 7, 8, 9, 10, 11, 12] (str ''hi'') (str ''abc'') =
     Inr (str ''AQIDBAUGBwgJCgsMCQt2dnYiIyAhLi8sLSomJiYm'')"
proof -
  have "btoa (fromCharCode ([1, 2, 3, 4, 5, 6, 7, 8, 9, 10, 11, 12] @
              [9, 11, 118, 118, 118, 34, 35, 32, 33, 46, 47, 44, 45, 42, 38, 38, 38, 38])) =
        Inr (str ''AQIDBAUGBwgJCgsMCQt2dnYiIyAhLi8sLSomJiYm'')"
    by (simp add: btoa_def fromCharCode_def b64_char_def str_def replicate_numeral)
  then show ?thesis
    using str_abc_ne(1)
    by (simp add: encryptText_raw_def spread_fromCharCode_def importKey_ascii [OF ascii_str_abc(1)]
        sim_raw_ct)
qed

lemma percent_unreadable:
  "sim_parse_record (str ''%'') = None" "atob (str ''%'') = Inl InvalidCharacterError"
  "hd (split_on 58 (str ''%'')) = str ''%''"
  by (simp_all add: sim_parse_record_def atob_def strip_padding_def ascii_whitespace_def
      b64_value_def str_def)

lemma sim_key_abd:
  "TextEncoder_encode (padKey (str ''abd'')) =
     [97, 98, 100, 48, 48, 48, 48, 48, 48, 48, 48, 48, 48, 48, 48, 48, 48, 48, 48, 48, 48, 48, 48,
      48, 48, 48, 48, 48, 48, 48, 48, 48]"
proof -
  have "padKey (str ''abd'') = str ''abd00000000000000000000000000000''"
    by (simp add: padKey_def str_def replicate_numeral)
  moreover have "list_all (\<lambda>u. u < 128) (str ''abd00000000000000000000000000000'')"
    by (simp add: str_def)
  ultimately show ?thesis by (simp add: ascii_encode) (simp add: str_def)
qed

section \<open>AES-CBC: another nonce for the same ciphertext\<close>

text \<open>
  With two or more blocks of ciphertext the padding lies behind the first block. The
  nonce enters the first plaintext block only, by XOR, so decryption under another nonce
  succeeds whenever it succeeds under the original one.
\<close>

lemma xor_bytes_reroute:
  "length d = length iv \<Longrightarrow> length iv = length iv' \<Longrightarrow>
   xor_bytes (xor_bytes d iv) (xor_bytes iv iv') = xor_bytes d iv'"
  unfolding xor_bytes_def
proof (induction d iv iv' rule: list_induct3)
  case Nil
  then show ?case by simp
next
  case (Cons x xs y ys z zs)
  have "(x XOR y) XOR (y XOR z) = x XOR z"
    by (simp add: bit_eq_iff bit_xor_iff) blast
  then show ?case using Cons by simp
qed

lemma pkcs7_unpad_prefix:
  assumes "16 \<le> length R"
  shows "pkcs7_unpad (X @ R) = map_option ((@) X) (pkcs7_unpad R)"
proof -
  have ne: "R \<noteq> []" using assms by auto
  let ?n = "unat (last R)"
  show ?thesis
  proof (cases "?n = 0 \<or> 16 < ?n")
    case True
    then show ?thesis using ne by (auto simp: pkcs7_unpad_def Let_def)
  next
    case False
    then have n: "?n \<le> length R" using assms by simp
    have d: "drop (length X + length R - ?n) (X @ R) = drop (length R - ?n) R"
      using n by simp
    have t: "take (length X + length R - ?n) (X @ R) = X @ take (length R - ?n) R"
      using n by simp
    show ?thesis using ne False n by (simp add: pkcs7_unpad_def Let_def d t)
  qed
qed

lemma blocks_two:
  assumes "32 \<le> length ct"
  shows "\<exists>b2 rest. blocks ct = take 16 ct # b2 # rest \<and> length b2 = 16"
proof -
  have "2 \<le> length ct div 16" using assms by (simp add: less_eq_div_iff_mult_less_eq)
  then obtain m where m: "length ct div 16 = Suc (Suc m)"
    by (metis numeral_2_eq_2 le_Suc_ex add_2_eq_Suc)
  have u: "[0..<Suc (Suc m)] = 0 # 1 # [2..<Suc (Suc m)]"
    by (simp add: upt_conv_Cons numeral_2_eq_2)
  have "length (take 16 (drop 16 ct)) = 16" using assms by simp
  then show ?thesis unfolding blocks_def m u by simp
qed

lemma length_xor_bytes16: "length a = 16 \<Longrightarrow> length b = 16 \<Longrightarrow> length (xor_bytes a b) = 16"
  by (simp add: xor_bytes_def)

lemma cbc_decrypt_other_nonce:
  assumes bl: "\<forall>x. length x = 16 \<longrightarrow> length (block_decrypt P key x) = 16"
    and iv: "length iv = 16" and iv': "length iv' = 16"
    and ct: "32 \<le> length ct" "length ct mod 16 = 0"
    and dec: "cbc_decrypt P key iv ct = Inr pt"
  shows "cbc_decrypt P key iv' ct = Inr (xor_bytes (take 16 pt) (xor_bytes iv iv') @ drop 16 pt)"
proof -
  let ?D = "block_decrypt P key"
  let ?b1 = "take 16 ct"
  obtain b2 rest where b: "blocks ct = ?b1 # b2 # rest" and l2: "length b2 = 16"
    using blocks_two [OF ct(1)] by blast
  have l1: "length ?b1 = 16" using ct(1) by simp
  let ?R = "concat (cbc_decrypt_chain ?D ?b1 (b2 # rest))"
  have "length (xor_bytes (?D b2) ?b1) = 16"
    using bl l1 l2 by (simp add: length_xor_bytes16)
  then have R: "16 \<le> length ?R" by simp
  have d1: "length (?D ?b1) = 16" using bl l1 by simp
  let ?X = "xor_bytes (?D ?b1) iv"
  let ?X' = "xor_bytes (?D ?b1) iv'"
  have lX: "length ?X = 16" using d1 iv by (rule length_xor_bytes16)
  have ne: "ct \<noteq> []" using ct(1) by auto
  have c: "cbc_decrypt P key v ct =
           (case pkcs7_unpad (xor_bytes (?D ?b1) v @ ?R) of None \<Rightarrow> Inl OperationError
            | Some p \<Rightarrow> Inr p)" if "length v = 16" for v
    using that ne ct(2) by (simp add: cbc_decrypt_def b)
  from dec obtain u where u: "pkcs7_unpad ?R = Some u" and pt: "pt = ?X @ u"
    unfolding c [OF iv] pkcs7_unpad_prefix [OF R] by (auto split: option.splits)
  have "cbc_decrypt P key iv' ct = Inr (?X' @ u)"
    unfolding c [OF iv'] pkcs7_unpad_prefix [OF R] u by simp
  moreover have "?X' = xor_bytes ?X (xor_bytes iv iv')"
    using xor_bytes_reroute [of "?D ?b1" iv iv'] d1 iv iv' by simp
  moreover have "take 16 pt = ?X" "drop 16 pt = u" using pt lX by simp_all
  ultimately show ?thesis by simp
qed

lemma btoa_no_colon: "btoa (fromCharCode bs) = Inr r \<Longrightarrow> 58 \<notin> set r"
  using btoa_alphabet(1) [of bs r] by (auto simp: list_all_iff b64_value_def)

lemma btoa_then_atob: "btoa (fromCharCode bs) = Inr r \<Longrightarrow> atob r = Inr (fromCharCode bs)"
  using atob_btoa_bytes [of bs] by auto

lemma decryptText_cbc_record:
  assumes "btoa (fromCharCode iv) = Inr a" and "btoa (fromCharCode ct) = Inr b"
    and "importKey (TextEncoder_encode pw) = Inr key"
  shows "decryptText_cbc P (a @ str '':'' @ b) pw =
           (case cbc_decrypt P key iv ct of Inl e \<Rightarrow> Inl e
            | Inr pt \<Rightarrow> Inr (TextDecoder_decode pt))"
proof -
  have s: "split_on 58 (a @ str '':'' @ b) = [a, b]"
    using split_on_append [OF btoa_no_colon [OF assms(1)], of b]
      split_on_none [OF btoa_no_colon [OF assms(2)]] by (simp add: str_def)
  show ?thesis
    unfolding decryptText_cbc_def s
    by (simp add: btoa_then_atob [OF assms(1)] btoa_then_atob [OF assms(2)] assms(3)
        charCodes_fromCharCode)
qed

lemma cbc_record_other_nonce:
  assumes "importKey (TextEncoder_encode pw) = Inr key"
    and "\<forall>x. length x = 16 \<longrightarrow> length (block_decrypt P key x) = 16"
    and "length iv = 16" and "length iv' = 16"
    and "32 \<le> length ct" and "length ct mod 16 = 0"
    and "btoa (fromCharCode iv) = Inr a" and "btoa (fromCharCode iv') = Inr a'"
    and "btoa (fromCharCode ct) = Inr b"
    and "decryptText_cbc P (a @ str '':'' @ b) pw = Inr txt"
  shows "\<exists>pt. cbc_decrypt P key iv ct = Inr pt \<and> txt = TextDecoder_decode pt \<and>
           decryptText_cbc P (a' @ str '':'' @ b) pw =
             Inr (TextDecoder_decode (xor_bytes (take 16 pt) (xor_bytes iv iv') @ drop 16 pt))"
proof -
  from assms(10) obtain pt where pt: "cbc_decrypt P key iv ct = Inr pt" "txt = TextDecoder_decode pt"
    unfolding decryptText_cbc_record [OF assms(7,9,1)] by (auto split: sum.splits)
  have "cbc_decrypt P key iv' ct = Inr (xor_bytes (take 16 pt) (xor_bytes iv iv') @ drop 16 pt)"
    by (rule cbc_decrypt_other_nonce [OF assms(2-6) pt(1)])
  then show ?thesis
    using pt by (simp add: decryptText_cbc_record [OF assms(8,9,1)])
qed

subsection \<open>Values of the instance under AES-CBC\<close>

lemma length_sim_block: "16 \<le> length key \<Longrightarrow> length x = 16 \<Longrightarrow> length (sim_block key x) = 16"
  by (simp add: sim_block_def xor_bytes_def)

lemma sim_cbc_key:
  "importKey (TextEncoder_encode (str ''0123456789abcdef'')) =
     Inr [48, 49, 50, 51, 52, 53, 54, 55, 56, 57, 97, 98, 99, 100, 101, 102]"
  by (simp add: importKey_def ascii_encode str_def)

lemma sim_cbc_two_blocks:
  "cbc_decrypt sim [48, 49, 50, 51, 52, 53, 54, 55, 56, 57, 97, 98, 99, 100, 101, 102]
     [1, 2, 3, 4, 5, 6, 7, 8, 9, 10, 11, 12, 13, 14, 15, 16]
     [112, 113, 114, 115, 116, 117, 118, 119, 120, 121, 33, 34, 35, 36, 37, 38,
      80, 80, 80, 80, 80, 80, 80, 80, 80, 80, 80, 80, 80, 80, 80, 80] =
   Inr [65, 66, 67, 68, 69, 70, 71, 72, 73, 74, 75, 76, 77, 78, 79, 80]"
proof -
  have u: "[0..<2] = [0, 1]" by (simp add: numeral_2_eq_2)
  show ?thesis
    by (simp add: cbc_decrypt_def pkcs7_unpad_def blocks_def sim_block_def xor_bytes_def
        replicate_numeral Let_def u)
qed

lemma decode_alphabet:
  "TextDecoder_decode [65, 66, 67, 68, 69, 70, 71, 72, 73, 74, 75, 76, 77, 78, 79, 80] =
     str ''ABCDEFGHIJKLMNOP''"
  by (simp add: TextDecoder_decode_def utf8_decode.simps str_def)

lemma sim_cbc_b64:
  "btoa (fromCharCode [1, 2, 3, 4, 5, 6, 7, 8, 9, 10, 11, 12, 13, 14, 15, 16]) =
     Inr (str ''AQIDBAUGBwgJCgsMDQ4PEA=='')"
  "btoa (fromCharCode [2, 2, 3, 4, 5, 6, 7, 8, 9, 10, 11, 12, 13, 14, 15, 16]) =
     Inr (str ''AgIDBAUGBwgJCgsMDQ4PEA=='')"
  "btoa (fromCharCode [112, 113, 114, 115, 116, 117, 118, 119, 120, 121, 33, 34, 35, 36, 37, 38,
      80, 80, 80, 80, 80, 80, 80, 80, 80, 80, 80, 80, 80, 80, 80, 80]) =
     Inr (str ''cHFyc3R1dnd4eSEiIyQlJlBQUFBQUFBQUFBQUFBQUFA='')"
  by (simp_all add: btoa_def fromCharCode_def b64_char_def str_def replicate_numeral)

lemma sim_cbc_record:
  "decryptText_cbc sim
     (str ''AQIDBAUGBwgJCgsMDQ4PEA=='' @ str '':'' @ str ''cHFyc3R1dnd4eSEiIyQlJlBQUFBQUFBQUFBQUFBQUFA='')
     (str ''0123456789abcdef'') = Inr (str ''ABCDEFGHIJKLMNOP'')"
  by (simp add: decryptText_cbc_record [OF sim_cbc_b64(1) sim_cbc_b64(3) sim_cbc_key]
      sim_cbc_two_blocks decode_alphabet)

section \<open>Code units, the argument limit and the random source\<close>

lemma length_sim_gcm_encrypt: "length (sim_gcm_encrypt key iv pt) = length pt + 16"
  by (simp add: sim_gcm_encrypt_def Let_def length_sim_tag length_xor_bytes length_sim_stream)

lemma length_utf8_encode_cp:
  "length (utf8_encode_cp c) =
     (if c < 0x80 then 1 else if c < 0x800 then 2 else if c < 0x10000 then 3 else 4)"
  by (simp add: utf8_encode_cp_def)

lemma length_utf8_units:
  "length s \<le> length (concat (map utf8_encode_cp (to_usv s))) \<and>
   (length (concat (map utf8_encode_cp (to_usv s))) = length s) = list_all (\<lambda>u. u < 128) s"
  by (induction s rule: to_usv.induct) (auto simp: length_utf8_encode_cp is_high_def is_low_def)

lemma length_TextEncoder_encode:
  "length s \<le> length (TextEncoder_encode s)"
  "(length (TextEncoder_encode s) = length s) = list_all (\<lambda>u. u < 128) s"
  using length_utf8_units [of s] by (simp_all add: TextEncoder_encode_def)

lemma importKey_padKey:
  "importKey (TextEncoder_encode (padKey key)) =
     (if list_all (\<lambda>u. u < 128) (padKey key) then Inr (TextEncoder_encode (padKey key))
      else Inl DataError)"
  using length_TextEncoder_encode [of "padKey key"]
  by (auto simp: importKey_def length_padKey)

lemma from_to_usv_iff:
  "list_all (\<lambda>u. u < 0x10000) s \<Longrightarrow> (from_usv (to_usv s) = s) = wellformed s"
proof (induction s rule: to_usv.induct)
  case 1
  then show ?case by simp
next
  case (2 u)
  then show ?case by (auto simp: is_high_def is_low_def)
next
  case (3 u v us)
  show ?case
  proof (cases "is_high u \<and> is_low v")
    case True
    then have "(from_usv (to_usv us) = us) = wellformed us" using 3 by simp
    then show ?thesis using True by (simp add: pair_split high_mod low_mod)
  next
    case False
    show ?thesis
    proof (cases "is_high u \<or> is_low u")
      case True
      then have "u \<noteq> 0xFFFD" by (auto simp: is_high_def is_low_def)
      then show ?thesis using True False by (auto simp: is_high_def is_low_def)
    next
      case n: False
      then have "(from_usv (to_usv (v # us)) = v # us) = wellformed (v # us)"
        using 3 False by simp
      then show ?thesis using n False 3(4) by simp
    qed
  qed
qed

lemma getRandomValues_length: "length (fst (getRandomValues n g)) = n"
  by (simp add: getRandomValues_def)








lemma age_recover_record:
  "age_recover (age_header @ str ''Recipient: '' @ AGE_PUBLIC_KEY @ [10, 10] @ payload @ age_footer) =
     (case atob payload of Inl e \<Rightarrow> Inl e
      | Inr bin \<Rightarrow> Inr (from_usv (utf8_decode 0 0 0 0x80 0xBF bin)))"
  by (simp add: age_recover_def)

lemma utf8_of_units:
  assumes "list_all (\<lambda>u. u < 0x10000) t"
  shows "utf8_decode 0 0 0 0x80 0xBF (fromCharCode (TextEncoder_encode t)) = to_usv t"
proof -
  have sc: "list_all scalar (to_usv t)" using assms by (rule to_usv_scalar)
  then show ?thesis
    by (simp add: fromCharCode_def TextEncoder_encode_def map_unat_of_nat concat_bytes
        utf8_decode_concat del: map_map)
qed

lemma sim_cbc_encrypt_A:
  "encryptText_cbc sim [1, 2, 3, 4, 5, 6, 7, 8, 9, 10, 11, 12, 13, 14, 15, 16] (str ''A'')
     (str ''0123456789abcdef'') =
     Inr (str ''AQIDBAUGBwgJCgsMDQ4PEA=='' @ str '':'' @ str ''cDw+OD48PjA+PGVhYWVleQ=='')"
  "cbc_encrypt sim (TextEncoder_encode (str ''0123456789abcdef''))
     [1, 2, 3, 4, 5, 6, 7, 8, 9, 10, 11, 12, 13, 14, 15, 16] (TextEncoder_encode (str ''A'')) =
     Inr [112, 60, 62, 56, 62, 60, 62, 48, 62, 60, 101, 97, 97, 101, 101, 121]"
  "btoa (fromCharCode [112, 60, 62, 56, 62, 60, 62, 48, 62, 60, 101, 97, 97, 101, 101, 121]) =
     Inr (str ''cDw+OD48PjA+PGVhYWVleQ=='')"
proof -
  have k: "TextEncoder_encode (str ''0123456789abcdef'') =
           [48, 49, 50, 51, 52, 53, 54, 55, 56, 57, 97, 98, 99, 100, 101, 102]"
    by (simp add: ascii_encode str_def)
  show e: "cbc_encrypt sim (TextEncoder_encode (str ''0123456789abcdef''))
             [1, 2, 3, 4, 5, 6, 7, 8, 9, 10, 11, 12, 13, 14, 15, 16] (TextEncoder_encode (str ''A'')) =
           Inr [112, 60, 62, 56, 62, 60, 62, 48, 62, 60, 101, 97, 97, 101, 101, 121]"
    unfolding k
    by (simp add: cbc_encrypt_def pkcs7_pad_def blocks_def sim_block_def xor_bytes_def
        ascii_encode str_def replicate_numeral Let_def)
  show b2: "btoa (fromCharCode [112, 60, 62, 56, 62, 60, 62, 48, 62, 60, 101, 97, 97, 101, 101, 121]) =
            Inr (str ''cDw+OD48PjA+PGVhYWVleQ=='')"
    by (simp add: btoa_def fromCharCode_def b64_char_def str_def replicate_numeral)
  have i: "importKey (TextEncoder_encode (str ''0123456789abcdef'')) =
           Inr (TextEncoder_encode (str ''0123456789abcdef''))"
    by (simp add: importKey_def k)
  show "encryptText_cbc sim [1, 2, 3, 4, 5, 6, 7, 8, 9, 10, 11, 12, 13, 14, 15, 16] (str ''A'')
     (str ''0123456789abcdef'') =
     Inr (str ''AQIDBAUGBwgJCgsMDQ4PEA=='' @ str '':'' @ str ''cDw+OD48PjA+PGVhYWVleQ=='')"
    by (simp add: encryptText_cbc_def i e spread_fromCharCode_def sim_cbc_b64(1) b2)
qed

lemma sim_sizes:
  "length [1, 2, 3, 4, 5, 6, 7, 8, 9, 10, 11, 12 :: byte] +
     length (gcm_encrypt sim K [1, 2, 3, 4, 5, 6, 7, 8, 9, 10, 11, 12] (TextEncoder_encode (str ''hi'')))
     \<le> max_args sim"
  "length [1, 2, 3, 4, 5, 6, 7, 8, 9, 10, 11, 12 :: byte] +
     length (gcm_encrypt sim K [1, 2, 3, 4, 5, 6, 7, 8, 9, 10, 11, 12]
       (TextEncoder_encode (0xFEFF # str ''hi''))) \<le> max_args sim"
  "length [13, 14, 15, 16, 17, 18, 19, 20, 21, 22, 23, 24 :: byte] +
     length (gcm_encrypt sim K [13, 14, 15, 16, 17, 18, 19, 20, 21, 22, 23, 24]
       (TextEncoder_encode (str ''hi''))) \<le> max_args sim"
proof -
  have a: "length (TextEncoder_encode (str ''hi'')) = 2"
    by (simp add: ascii_encode [OF ascii_str_abc(3)]) (simp add: str_def)
  have b: "length (TextEncoder_encode (0xFEFF # str ''hi'')) = 5"
    by (simp add: TextEncoder_encode_def to_usv_bom ascii_to_usv [OF ascii_str_abc(3)]
        ascii_utf8 [OF ascii_str_abc(3)] utf8_encode_cp_def) (simp add: str_def)
  show "length [1, 2, 3, 4, 5, 6, 7, 8, 9, 10, 11, 12 :: byte] +
     length (gcm_encrypt sim K [1, 2, 3, 4, 5, 6, 7, 8, 9, 10, 11, 12] (TextEncoder_encode (str ''hi'')))
     \<le> max_args sim"
    by (simp add: length_sim_gcm_encrypt a)
  show "length [1, 2, 3, 4, 5, 6, 7, 8, 9, 10, 11, 12 :: byte] +
     length (gcm_encrypt sim K [1, 2, 3, 4, 5, 6, 7, 8, 9, 10, 11, 12]
       (TextEncoder_encode (0xFEFF # str ''hi''))) \<le> max_args sim"
    by (simp add: length_sim_gcm_encrypt b)
  show "length [13, 14, 15, 16, 17, 18, 19, 20, 21, 22, 23, 24 :: byte] +
     length (gcm_encrypt sim K [13, 14, 15, 16, 17, 18, 19, 20, 21, 22, 23, 24]
       (TextEncoder_encode (str ''hi''))) \<le> max_args sim"
    by (simp add: length_sim_gcm_encrypt a)
qed

section \<open>Round trip\<close>

text \<open>
  For Unicode text that does not begin with the byte order mark, decrypting what was
  encrypted returns the text, in the password variant and in the raw-key variant. The
  hypotheses on the platform are stated at the one point where they are used: the parser
  reads the record back, AES-GCM decrypts what it encrypted under the same key and iv,
  the raw key is one \<open>importKey\<close> accepts, and nonce and ciphertext together are no more
  bytes than the engine takes as arguments.
\<close>

theorem roundtrip_returns_text:
  assumes "deriveKey P pw = Inr key"
    and "ct = gcm_encrypt P key iv (TextEncoder_encode p)"
    and "parse_record P (JSON_stringify iv ct) = Some (iv, ct)"
    and "gcm_decrypt P key iv ct = Some (TextEncoder_encode p)"
    and "wellformed p" and "\<not> starts_with_bom p"
  shows "roundtrip P iv pw p = Inr p"
  using roundtrip_bytes [OF assms(1-4)] text_roundtrip [OF assms(5,6)] by simp

theorem roundtrip_returns_text_witness:
  "roundtrip sim [1, 2, 3, 4, 5, 6, 7, 8, 9, 10, 11, 12] (str ''pw'') (str ''hi'') = Inr (str ''hi'')"
proof -
  have w: "wellformed (str ''hi'')" by (rule ascii_wellformed [OF ascii_str_abc(3)])
  have b: "\<not> starts_with_bom (str ''hi'')" by (simp add: str_def)
  show ?thesis
    by (rule roundtrip_returns_text [OF _ refl _ _ w b, of sim])
       (simp_all add: deriveKey_def sim_parse_stringify sim_gcm_correct)
qed

theorem roundtrip_raw_returns_text:
  assumes "key \<noteq> []" and "importKey (TextEncoder_encode (padKey key)) = Inr K"
    and "length iv = 12"
    and "gcm_decrypt P K iv (gcm_encrypt P K iv (TextEncoder_encode p)) = Some (TextEncoder_encode p)"
    and "wellformed p" and "\<not> starts_with_bom p"
    and "length iv + length (gcm_encrypt P K iv (TextEncoder_encode p)) \<le> max_args P"
  shows "cross_raw P iv key key p = Inr p"
  using cross_raw_bytes [OF assms(1) assms(1) refl assms(2-4) assms(7)] text_roundtrip [OF assms(5,6)]
  by simp

theorem roundtrip_raw_returns_text_witness:
  "cross_raw sim [1, 2, 3, 4, 5, 6, 7, 8, 9, 10, 11, 12] (str ''abc'') (str ''abc'') (str ''hi'') =
     Inr (str ''hi'')"
proof -
  have w: "wellformed (str ''hi'')" by (rule ascii_wellformed [OF ascii_str_abc(3)])
  have b: "\<not> starts_with_bom (str ''hi'')" by (simp add: str_def)
  show ?thesis
    by (rule roundtrip_raw_returns_text [OF str_abc_ne(1) importKey_ascii [OF ascii_str_abc(1)] _ _ w b
          sim_sizes(1)])
       (simp_all add: sim_gcm_correct)
qed

text \<open>
  Claim C1: for every plaintext and password, decrypting the record of the encryption
  returns exactly the plaintext. The code does not do this for every plaintext. A text that
  begins with the byte order mark comes back without it, in the password variant and in
  the raw-key variant alike, because \<open>new TextDecoder()\<close> drops a leading U+FEFF. In the
  raw-key variant the key of the one code unit U+00E9, a character outside ASCII, is padded
  to 32 code units, which are 33 bytes, and \<open>encryptText\<close> fails with \<open>DataError\<close>
  before any record exists. The record of the raw-key variant is taken within the number
  of arguments the engine accepts.
\<close>

theorem roundtrip_drops_byte_order_mark:
  assumes "deriveKey P pw = Inr key"
    and "ct = gcm_encrypt P key iv (TextEncoder_encode (0xFEFF # s))"
    and "parse_record P (JSON_stringify iv ct) = Some (iv, ct)"
    and "gcm_decrypt P key iv ct = Some (TextEncoder_encode (0xFEFF # s))"
    and "k \<noteq> []" and "importKey (TextEncoder_encode (padKey k)) = Inr K"
    and "length iv = 12"
    and "gcm_decrypt P K iv (gcm_encrypt P K iv (TextEncoder_encode (0xFEFF # s))) =
           Some (TextEncoder_encode (0xFEFF # s))"
    and "wellformed s"
    and "length iv + length (gcm_encrypt P K iv (TextEncoder_encode (0xFEFF # s))) \<le> max_args P"
  shows "roundtrip P iv pw (0xFEFF # s) = Inr s \<and>
         cross_raw P iv k k (0xFEFF # s) = Inr s \<and>
         encryptText_raw P iv s [0xE9] = Inl DataError"
  using roundtrip_bytes [OF assms(1-4)]
    cross_raw_bytes [OF assms(5) assms(5) refl assms(6-8) assms(10)] text_bom_lost [OF assms(9)]
  by (simp add: encryptText_raw_def non_ascii_key_rejected)

theorem roundtrip_drops_byte_order_mark_witness:
  "roundtrip sim [1, 2, 3, 4, 5, 6, 7, 8, 9, 10, 11, 12] (str ''pw'') (0xFEFF # str ''hi'') =
     Inr (str ''hi'') \<and>
   cross_raw sim [1, 2, 3, 4, 5, 6, 7, 8, 9, 10, 11, 12] (str ''abc'') (str ''abc'')
     (0xFEFF # str ''hi'') = Inr (str ''hi'') \<and>
   encryptText_raw sim [1, 2, 3, 4, 5, 6, 7, 8, 9, 10, 11, 12] (str ''hi'') [0xE9] = Inl DataError"
proof -
  have w: "wellformed (str ''hi'')" by (rule ascii_wellformed [OF ascii_str_abc(3)])
  have l: "length [1, 2, 3, 4, 5, 6, 7, 8, 9, 10, 11, 12 :: byte] = 12" by simp
  have p: "parse_record sim (JSON_stringify iv ct) = Some (iv, ct)" for iv ct
    by (simp add: sim_parse_stringify)
  have g: "gcm_decrypt sim key iv (gcm_encrypt sim key iv m) = Some m" for key iv m
    by (simp add: sim_gcm_correct)
  show ?thesis
    by (rule roundtrip_drops_byte_order_mark [OF sim_key_pw(1) refl p g str_abc_ne(1)
          importKey_ascii [OF ascii_str_abc(1)] l g w sim_sizes(2)])
qed

section \<open>Wrong password\<close>

text \<open>
  Claim C2, as the code has it. In the password variant, when AES-GCM rejects the record
  under the key derived from the second password, \<open>decryptText\<close> throws the error
  \<open>Bad password or corrupted data\<close> and returns no string. In the raw-key variant a
  rejected record is not signalled: \<open>decryptText\<close> returns the failure prefix followed by
  the record, and with an empty key it returns the record itself.
\<close>

theorem wrong_password_outcome:
  assumes "deriveKey P pw1 = Inr key1" and "deriveKey P pw2 = Inr key2"
    and "ct = gcm_encrypt P key1 iv (TextEncoder_encode p)"
    and "parse_record P (JSON_stringify iv ct) = Some (iv, ct)"
    and "gcm_decrypt P key2 iv ct = None"
    and "k \<noteq> []" and "importKey (TextEncoder_encode (padKey k)) = Inr K"
    and "length iv' = 12" and "btoa (fromCharCode (iv' @ ct')) = Inr r"
    and "gcm_decrypt P K iv' ct' = None"
  shows "encryptText P iv pw1 p = Inr (JSON_stringify iv ct) \<and>
         decryptText P pw2 (JSON_stringify iv ct) =
           Inl (Error (str ''Bad password or corrupted data'')) \<and>
         decryptText_raw P r k = str ''[Decryption Failed - Invalid Key?] '' @ r \<and>
         decryptText_raw P r [] = r"
proof -
  have "atob r = Inr (fromCharCode (iv' @ ct'))"
    by (rule btoa_then_atob [OF assms(9)])
  from decryptText_raw_unfold [OF assms(6,7) this assms(8)] assms(10)
  have "decryptText_raw P r k = str ''[Decryption Failed - Invalid Key?] '' @ r"
    by (simp add: failed_raw_def)
  moreover have "decryptText_raw P r [] = r" by (simp add: decryptText_raw_def)
  ultimately show ?thesis
    using assms(1,3) decryptText_rejected [OF assms(2,4,5)] by (simp add: encryptText_def)
qed

theorem wrong_password_outcome_witness:
  "encryptText sim [1, 2, 3, 4, 5, 6, 7, 8, 9, 10, 11, 12] (str ''pw'') (str ''hi'') =
     Inr (JSON_stringify [1, 2, 3, 4, 5, 6, 7, 8, 9, 10, 11, 12]
            [24, 30, 73, 77, 93, 85, 69, 91, 91, 29, 66, 83, 95, 64, 21, 94, 87, 74]) \<and>
   decryptText sim (str ''pw2'')
     (JSON_stringify [1, 2, 3, 4, 5, 6, 7, 8, 9, 10, 11, 12]
        [24, 30, 73, 77, 93, 85, 69, 91, 91, 29, 66, 83, 95, 64, 21, 94, 87, 74]) =
     Inl (Error (str ''Bad password or corrupted data'')) \<and>
   decryptText_raw sim (str ''AQIDBAUGBwgJCgsMCQt2dnYiIyAhLi8sLSomJiYm'') (str ''abd'') =
     str ''[Decryption Failed - Invalid Key?] '' @ str ''AQIDBAUGBwgJCgsMCQt2dnYiIyAhLi8sLSomJiYm'' \<and>
   decryptText_raw sim (str ''AQIDBAUGBwgJCgsMCQt2dnYiIyAhLi8sLSomJiYm'') [] =
     str ''AQIDBAUGBwgJCgsMCQt2dnYiIyAhLi8sLSomJiYm''"
proof -
  have c: "[24, 30, 73, 77, 93, 85, 69, 91, 91, 29, 66, 83, 95, 64, 21, 94, 87, 74] =
           gcm_encrypt sim (map of_nat (str ''pwfixed-salt-for-derivation'') @ replicate 5 0)
             [1, 2, 3, 4, 5, 6, 7, 8, 9, 10, 11, 12] (TextEncoder_encode (str ''hi''))"
    by (simp add: sim_record_pw)
  have p: "parse_record sim (JSON_stringify iv ct) = Some (iv, ct)" for iv ct
    by (simp add: sim_parse_stringify)
  have g: "gcm_decrypt sim (map of_nat (str ''pw2fixed-salt-for-derivation'') @ replicate 4 0)
             [1, 2, 3, 4, 5, 6, 7, 8, 9, 10, 11, 12]
             [24, 30, 73, 77, 93, 85, 69, 91, 91, 29, 66, 83, 95, 64, 21, 94, 87, 74] = None"
    by (simp add: sim_record_pw_wrong)
  have ne: "str ''abd'' \<noteq> []" and a: "list_all (\<lambda>u. u < 128) (str ''abd'')"
    by (simp_all add: str_def)
  have l: "length [1, 2, 3, 4, 5, 6, 7, 8, 9, 10, 11, 12 :: byte] = 12" by simp
  have b: "btoa (fromCharCode ([1, 2, 3, 4, 5, 6, 7, 8, 9, 10, 11, 12] @
              [9, 11, 118, 118, 118, 34, 35, 32, 33, 46, 47, 44, 45, 42, 38, 38, 38, 38])) =
           Inr (str ''AQIDBAUGBwgJCgsMCQt2dnYiIyAhLi8sLSomJiYm'')"
    by (simp add: btoa_def fromCharCode_def b64_char_def str_def replicate_numeral)
  have g2: "gcm_decrypt sim (TextEncoder_encode (padKey (str ''abd'')))
              [1, 2, 3, 4, 5, 6, 7, 8, 9, 10, 11, 12]
              [9, 11, 118, 118, 118, 34, 35, 32, 33, 46, 47, 44, 45, 42, 38, 38, 38, 38] = None"
    by (simp add: sim_key_abd sim_gcm_decrypt_def sim_tag_def sim_stream_def xor_bytes_def
        replicate_numeral Let_def)
  show ?thesis
    by (rule wrong_password_outcome [OF sim_key_pw(1) sim_key_pw(2) c p g ne importKey_ascii [OF a]
          l b g2])
qed

text \<open>
  The claim as stated fails in the raw-key variant. The passwords \<open>abc\<close> and \<open>abc0\<close>
  differ and have the same padded key, so the second decrypts the record of the first.
\<close>

theorem other_password_decrypts:
  "str ''abc'' \<noteq> str ''abc0'' \<and>
   cross_raw sim [1, 2, 3, 4, 5, 6, 7, 8, 9, 10, 11, 12] (str ''abc'') (str ''abc0'') (str ''hi'') =
     Inr (str ''hi'')"
proof -
  have w: "wellformed (str ''hi'')" by (rule ascii_wellformed [OF ascii_str_abc(3)])
  have b: "\<not> starts_with_bom (str ''hi'')" by (simp add: str_def)
  have "cross_raw sim [1, 2, 3, 4, 5, 6, 7, 8, 9, 10, 11, 12] (str ''abc'') (str ''abc0'') (str ''hi'') =
     Inr (str ''hi'')"
    using cross_raw_bytes [OF str_abc_ne(1) str_abc_ne(2) padKey_abc importKey_ascii [OF ascii_str_abc(1)],
        of "[1, 2, 3, 4, 5, 6, 7, 8, 9, 10, 11, 12]" sim "str ''hi''"] sim_sizes(1)
    by (simp add: sim_gcm_correct text_roundtrip [OF w b])
  then show ?thesis using str_abc_ne(3) by simp
qed

section \<open>Tampering\<close>

text \<open>
  Claim C3, as the code has it. In the two AES-GCM variants a modified record that
  AES-GCM rejects gives no plaintext: the password variant throws
  \<open>Bad password or corrupted data\<close>, the raw-key variant returns its failure text, the
  prefix followed by the record it was given. The AES-CBC variant detects no change of
  the nonce: if a record with two or more blocks of ciphertext decrypts, the record with
  any other nonce decrypts too, to the text whose first 16 bytes are changed by the
  difference of the two nonces.
\<close>

theorem tampered_record_outcome:
  assumes "deriveKey P pw1 = Inr key1"
    and "parse_record P (JSON_stringify iv1 ct1) = Some (iv1, ct1)"
    and "gcm_decrypt P key1 iv1 ct1 = None"
    and "k2 \<noteq> []" and "importKey (TextEncoder_encode (padKey k2)) = Inr key2"
    and "length iv2 = 12" and "btoa (fromCharCode (iv2 @ ct2)) = Inr r2"
    and "gcm_decrypt P key2 iv2 ct2 = None"
    and "importKey (TextEncoder_encode pw3) = Inr key3"
    and "\<forall>x. length x = 16 \<longrightarrow> length (block_decrypt P key3 x) = 16"
    and "length iv3 = 16" and "length iv3' = 16"
    and "32 \<le> length ct3" and "length ct3 mod 16 = 0"
    and "btoa (fromCharCode iv3) = Inr a" and "btoa (fromCharCode iv3') = Inr a'"
    and "btoa (fromCharCode ct3) = Inr b"
    and "decryptText_cbc P (a @ str '':'' @ b) pw3 = Inr txt"
  shows "decryptText P pw1 (JSON_stringify iv1 ct1) =
           Inl (Error (str ''Bad password or corrupted data'')) \<and>
         decryptText_raw P r2 k2 = failed_raw r2 \<and>
         (\<exists>pt. cbc_decrypt P key3 iv3 ct3 = Inr pt \<and> txt = TextDecoder_decode pt \<and>
            decryptText_cbc P (a' @ str '':'' @ b) pw3 =
              Inr (TextDecoder_decode (xor_bytes (take 16 pt) (xor_bytes iv3 iv3') @ drop 16 pt)))"
proof -
  have "atob r2 = Inr (fromCharCode (iv2 @ ct2))"
    by (rule btoa_then_atob [OF assms(7)])
  from decryptText_raw_unfold [OF assms(4,5) this assms(6)] assms(8)
  have "decryptText_raw P r2 k2 = failed_raw r2" by simp
  then show ?thesis
    using decryptText_rejected [OF assms(1-3)] cbc_record_other_nonce [OF assms(9-18)] by simp
qed

theorem tampered_record_outcome_witness:
  "decryptText sim (str ''pw'')
     (JSON_stringify [2, 2, 3, 4, 5, 6, 7, 8, 9, 10, 11, 12]
        [24, 30, 73, 77, 93, 85, 69, 91, 91, 29, 66, 83, 95, 64, 21, 94, 87, 74]) =
     Inl (Error (str ''Bad password or corrupted data'')) \<and>
   decryptText_raw sim (str ''AgIDBAUGBwgJCgsMCQt2dnYiIyAhLi8sLSomJiYm'') (str ''abc'') =
     failed_raw (str ''AgIDBAUGBwgJCgsMCQt2dnYiIyAhLi8sLSomJiYm'') \<and>
   (\<exists>pt. cbc_decrypt sim [48, 49, 50, 51, 52, 53, 54, 55, 56, 57, 97, 98, 99, 100, 101, 102]
           [1, 2, 3, 4, 5, 6, 7, 8, 9, 10, 11, 12, 13, 14, 15, 16]
           [112, 113, 114, 115, 116, 117, 118, 119, 120, 121, 33, 34, 35, 36, 37, 38,
            80, 80, 80, 80, 80, 80, 80, 80, 80, 80, 80, 80, 80, 80, 80, 80] = Inr pt \<and>
      str ''ABCDEFGHIJKLMNOP'' = TextDecoder_decode pt \<and>
      decryptText_cbc sim
        (str ''AgIDBAUGBwgJCgsMDQ4PEA=='' @ str '':'' @
         str ''cHFyc3R1dnd4eSEiIyQlJlBQUFBQUFBQUFBQUFBQUFA='')
        (str ''0123456789abcdef'') =
        Inr (TextDecoder_decode
          (xor_bytes (take 16 pt)
             (xor_bytes [1, 2, 3, 4, 5, 6, 7, 8, 9, 10, 11, 12, 13, 14, 15, 16]
                [2, 2, 3, 4, 5, 6, 7, 8, 9, 10, 11, 12, 13, 14, 15, 16]) @ drop 16 pt)))"
proof -
  have g1: "gcm_decrypt sim (map of_nat (str ''pwfixed-salt-for-derivation'') @ replicate 5 0)
              [2, 2, 3, 4, 5, 6, 7, 8, 9, 10, 11, 12]
              [24, 30, 73, 77, 93, 85, 69, 91, 91, 29, 66, 83, 95, 64, 21, 94, 87, 74] = None"
    by (simp add: sim_gcm_decrypt_def sim_tag_def sim_stream_def xor_bytes_def str_def
        replicate_numeral Let_def)
  have p1: "parse_record sim (JSON_stringify [2, 2, 3, 4, 5, 6, 7, 8, 9, 10, 11, 12]
              [24, 30, 73, 77, 93, 85, 69, 91, 91, 29, 66, 83, 95, 64, 21, 94, 87, 74]) =
            Some ([2, 2, 3, 4, 5, 6, 7, 8, 9, 10, 11, 12],
              [24, 30, 73, 77, 93, 85, 69, 91, 91, 29, 66, 83, 95, 64, 21, 94, 87, 74])"
    by (simp add: sim_parse_stringify)
  have k: "importKey (TextEncoder_encode (padKey (str ''abc''))) =
           Inr (TextEncoder_encode (padKey (str ''abc'')))"
    by (rule importKey_ascii [OF ascii_str_abc(1)])
  have l2: "length [2, 2, 3, 4, 5, 6, 7, 8, 9, 10, 11, 12 :: byte] = 12" by simp
  have b: "btoa (fromCharCode ([2, 2, 3, 4, 5, 6, 7, 8, 9, 10, 11, 12] @
              [9, 11, 118, 118, 118, 34, 35, 32, 33, 46, 47, 44, 45, 42, 38, 38, 38, 38])) =
           Inr (str ''AgIDBAUGBwgJCgsMCQt2dnYiIyAhLi8sLSomJiYm'')"
    by (simp add: btoa_def fromCharCode_def b64_char_def str_def replicate_numeral)
  have g2: "gcm_decrypt sim (TextEncoder_encode (padKey (str ''abc'')))
              [2, 2, 3, 4, 5, 6, 7, 8, 9, 10, 11, 12]
              [9, 11, 118, 118, 118, 34, 35, 32, 33, 46, 47, 44, 45, 42, 38, 38, 38, 38] = None"
    by (simp add: sim_key_abc sim_gcm_decrypt_def sim_tag_def sim_stream_def xor_bytes_def
        replicate_numeral Let_def)
  have bl: "\<forall>x. length x = 16 \<longrightarrow>
              length (block_decrypt sim [48, 49, 50, 51, 52, 53, 54, 55, 56, 57, 97, 98, 99, 100, 101, 102] x) = 16"
    by (simp add: length_sim_block)
  have l3: "length [1, 2, 3, 4, 5, 6, 7, 8, 9, 10, 11, 12, 13, 14, 15, 16 :: byte] = 16"
    "length [2, 2, 3, 4, 5, 6, 7, 8, 9, 10, 11, 12, 13, 14, 15, 16 :: byte] = 16"
    "32 \<le> length [112, 113, 114, 115, 116, 117, 118, 119, 120, 121, 33, 34, 35, 36, 37, 38,
            80, 80, 80, 80, 80, 80, 80, 80, 80, 80, 80, 80, 80, 80, 80, 80 :: byte]"
    "length [112, 113, 114, 115, 116, 117, 118, 119, 120, 121, 33, 34, 35, 36, 37, 38,
            80, 80, 80, 80, 80, 80, 80, 80, 80, 80, 80, 80, 80, 80, 80, 80 :: byte] mod 16 = 0"
    by simp_all
  show ?thesis
    by (rule tampered_record_outcome [OF sim_key_pw(1) p1 g1 str_abc_ne(1) k l2 b g2 sim_cbc_key bl l3
          sim_cbc_b64 sim_cbc_record])
qed

text \<open>
  The AES-CBC variant has no integrity check. Changing the first byte of the nonce of a
  valid record from 1 to 2 changes the first byte of the plaintext in the same two bits:
  the record of \<open>A\<close> decrypts to \<open>B\<close>, and nothing is signalled.
\<close>

theorem cbc_tamper_undetected:
  "encryptText_cbc sim [1, 2, 3, 4, 5, 6, 7, 8, 9, 10, 11, 12, 13, 14, 15, 16] (str ''A'')
     (str ''0123456789abcdef'') =
     Inr (str ''AQIDBAUGBwgJCgsMDQ4PEA==:cDw+OD48PjA+PGVhYWVleQ=='') \<and>
   decryptText_cbc sim (str ''AgIDBAUGBwgJCgsMDQ4PEA==:cDw+OD48PjA+PGVhYWVleQ=='')
     (str ''0123456789abcdef'') = Inr (str ''B'')"
proof -
  have k: "importKey (TextEncoder_encode (str ''0123456789abcdef'')) =
           Inr [48, 49, 50, 51, 52, 53, 54, 55, 56, 57, 97, 98, 99, 100, 101, 102]"
    by (simp add: importKey_def ascii_encode str_def)
  have enc: "encryptText_cbc sim [1, 2, 3, 4, 5, 6, 7, 8, 9, 10, 11, 12, 13, 14, 15, 16] (str ''A'')
     (str ''0123456789abcdef'') =
     Inr (str ''AQIDBAUGBwgJCgsMDQ4PEA==:cDw+OD48PjA+PGVhYWVleQ=='')"
    unfolding sim_cbc_encrypt_A(1) by (simp add: str_def)
  have sp: "split_on 58 (str ''AgIDBAUGBwgJCgsMDQ4PEA==:cDw+OD48PjA+PGVhYWVleQ=='') =
            [str ''AgIDBAUGBwgJCgsMDQ4PEA=='', str ''cDw+OD48PjA+PGVhYWVleQ=='']"
    by (simp add: str_def)
  have a1: "atob (str ''AgIDBAUGBwgJCgsMDQ4PEA=='') =
            Inr [2, 2, 3, 4, 5, 6, 7, 8, 9, 10, 11, 12, 13, 14, 15, 16]"
    by (simp add: atob_def strip_padding_def ascii_whitespace_def b64_value_def str_def)
  have a2: "atob (str ''cDw+OD48PjA+PGVhYWVleQ=='') =
            Inr [112, 60, 62, 56, 62, 60, 62, 48, 62, 60, 101, 97, 97, 101, 101, 121]"
    by (simp add: atob_def strip_padding_def ascii_whitespace_def b64_value_def str_def)
  have d: "cbc_decrypt sim [48, 49, 50, 51, 52, 53, 54, 55, 56, 57, 97, 98, 99, 100, 101, 102]
             [2, 2, 3, 4, 5, 6, 7, 8, 9, 10, 11, 12, 13, 14, 15, 16]
             [112, 60, 62, 56, 62, 60, 62, 48, 62, 60, 101, 97, 97, 101, 101, 121] = Inr [66]"
    by (simp add: cbc_decrypt_def pkcs7_unpad_def blocks_def sim_block_def xor_bytes_def
        replicate_numeral Let_def)
  have t: "TextDecoder_decode [66] = str ''B''"
    by (simp add: TextDecoder_decode_def utf8_decode.simps str_def)
  have dec: "decryptText_cbc sim (str ''AgIDBAUGBwgJCgsMDQ4PEA==:cDw+OD48PjA+PGVhYWVleQ=='')
     (str ''0123456789abcdef'') = Inr (str ''B'')"
    by (simp add: decryptText_cbc_def sp a1 a2 k charCodes_def d t)
  show ?thesis using enc dec by simp
qed

section \<open>Records that cannot be read\<close>

text \<open>
  Claim C4, as the code has it. A stored text that cannot be read as a record has no
  error of its own. In the password variant it throws the error of a failed decryption,
  \<open>Bad password or corrupted data\<close>; in the raw-key variant a text \<open>atob\<close> rejects
  comes back behind the failure prefix; in the AES-CBC variant the exception of \<open>atob\<close>
  leaves \<open>decryptText\<close> as it is.
\<close>

theorem unreadable_record_outcome:
  assumes "parse_record P s1 = None"
    and "key \<noteq> []" and "atob s2 = Inl e2"
    and "atob (hd (split_on 58 s3)) = Inl e3"
  shows "decryptText P pw s1 = Inl (Error (str ''Bad password or corrupted data'')) \<and>
         decryptText_raw P s2 key = failed_raw s2 \<and>
         decryptText_cbc P s3 pw = Inl e3"
  using assms by (simp add: decryptText_def deriveKey_def decryptText_raw_def decryptText_cbc_def Let_def)

theorem unreadable_record_outcome_witness:
  "decryptText sim (str ''pw'') (str ''%'') = Inl (Error (str ''Bad password or corrupted data'')) \<and>
   decryptText_raw sim (str ''%'') (str ''abc'') = failed_raw (str ''%'') \<and>
   decryptText_cbc sim (str ''%'') (str ''pw'') = Inl InvalidCharacterError"
  by (rule unreadable_record_outcome [OF _ str_abc_ne(1)]) (simp_all add: percent_unreadable)

text \<open>
  An unreadable text and a valid record under the wrong password give the same error in
  the password variant; in the raw-key variant the unreadable text is returned as a
  string.
\<close>

theorem unreadable_and_wrong_password_alike:
  "decryptText sim (str ''pw'') (str ''%'') = Inl (Error (str ''Bad password or corrupted data'')) \<and>
   decryptText sim (str ''pw2'')
     (JSON_stringify [1, 2, 3, 4, 5, 6, 7, 8, 9, 10, 11, 12]
        [24, 30, 73, 77, 93, 85, 69, 91, 91, 29, 66, 83, 95, 64, 21, 94, 87, 74]) =
     Inl (Error (str ''Bad password or corrupted data'')) \<and>
   decryptText_raw sim (str ''%'') (str ''abc'') = str ''[Decryption Failed - Invalid Key?] %''"
proof -
  have a: "decryptText sim (str ''pw'') (str ''%'') =
           Inl (Error (str ''Bad password or corrupted data''))"
    by (simp add: decryptText_def deriveKey_def percent_unreadable)
  have b: "decryptText sim (str ''pw2'')
     (JSON_stringify [1, 2, 3, 4, 5, 6, 7, 8, 9, 10, 11, 12]
        [24, 30, 73, 77, 93, 85, 69, 91, 91, 29, 66, 83, 95, 64, 21, 94, 87, 74]) =
     Inl (Error (str ''Bad password or corrupted data''))"
  proof (rule decryptText_rejected [OF sim_key_pw(2)])
    show "parse_record sim (JSON_stringify [1, 2, 3, 4, 5, 6, 7, 8, 9, 10, 11, 12]
        [24, 30, 73, 77, 93, 85, 69, 91, 91, 29, 66, 83, 95, 64, 21, 94, 87, 74]) =
        Some ([1, 2, 3, 4, 5, 6, 7, 8, 9, 10, 11, 12],
          [24, 30, 73, 77, 93, 85, 69, 91, 91, 29, 66, 83, 95, 64, 21, 94, 87, 74])"
      by (simp add: sim_parse_stringify)
    show "gcm_decrypt sim (map of_nat (str ''pw2fixed-salt-for-derivation'') @ replicate 4 0)
        [1, 2, 3, 4, 5, 6, 7, 8, 9, 10, 11, 12]
        [24, 30, 73, 77, 93, 85, 69, 91, 91, 29, 66, 83, 95, 64, 21, 94, 87, 74] = None"
      by (simp add: sim_record_pw_wrong)
  qed
  have c: "decryptText_raw sim (str ''%'') (str ''abc'') = str ''[Decryption Failed - Invalid Key?] %''"
    using str_abc_ne(1) by (simp add: decryptText_raw_def percent_unreadable failed_raw_def) (simp add: str_def)
  show ?thesis using a b c by simp
qed

section \<open>Decrypting all notes\<close>

text \<open>
  Claim C5, as the code has it. \<open>handleDecryptAll\<close> of the raw-key variant treats every
  note on its own: one entry per note, in order, holding what \<open>decryptText\<close> returns for
  that note. \<open>attemptUnlock\<close> of the password variant is all or nothing: if one note fails,
  the only change is the error \<open>Incorrect password\<close>, and no decrypted note is kept.
  Neither changes the notes that were loaded.
\<close>

theorem decrypt_all_outcomes:
  "handleDecryptAll P st =
     (if p_decryptKey st = [] then st
      else st\<lparr>p_decryptedNotes :=
        map (\<lambda>n. \<lparr>shown_id = note_id n,
                  shown_text = decryptText_raw P (note_text n) (p_decryptKey st),
                  isEncrypted = (note_text n \<noteq> decryptText_raw P (note_text n) (p_decryptKey st))\<rparr>)
          (p_notes st)\<rparr>) \<and>
   p_notes (handleDecryptAll P st) = p_notes st \<and>
   attemptUnlock P ust =
     (if list_ex (\<lambda>n. isl (decryptText P (u_password ust) (note_text n))) (u_notes ust)
      then ust\<lparr>u_error := str ''Incorrect password''\<rparr>
      else ust\<lparr>u_decryptedNotes :=
             map (\<lambda>n. \<lparr>note_id = note_id n,
                       note_text = projr (decryptText P (u_password ust) (note_text n))\<rparr>)
               (u_notes ust),
             u_unlocked := True, u_error := []\<rparr>) \<and>
   u_notes (attemptUnlock P ust) = u_notes ust"
  by (simp add: handleDecryptAll_def decrypt_each_map attemptUnlock_def unlock_loop_eq)

text \<open>
  Three notes, the second under another password: the first and the third decrypt, and
  \<open>attemptUnlock\<close> keeps none of them.
\<close>

theorem one_bad_note_aborts_unlock:
  "decryptText sim (str ''pw2'')
     (JSON_stringify [1, 2, 3, 4, 5, 6, 7, 8, 9, 10, 11, 12]
        [24, 30, 73, 77, 9, 90, 84, 70, 90, 84, 28, 65, 82, 88, 76, 21, 94, 87]) = Inr (str ''hi'') \<and>
   attemptUnlock sim
     \<lparr>u_notes =
        [\<lparr>note_id = str ''1'',
          note_text = JSON_stringify [1, 2, 3, 4, 5, 6, 7, 8, 9, 10, 11, 12]
            [24, 30, 73, 77, 9, 90, 84, 70, 90, 84, 28, 65, 82, 88, 76, 21, 94, 87]\<rparr>,
         \<lparr>note_id = str ''2'',
          note_text = JSON_stringify [1, 2, 3, 4, 5, 6, 7, 8, 9, 10, 11, 12]
            [24, 30, 73, 77, 93, 85, 69, 91, 91, 29, 66, 83, 95, 64, 21, 94, 87, 74]\<rparr>,
         \<lparr>note_id = str ''3'',
          note_text = JSON_stringify [1, 2, 3, 4, 5, 6, 7, 8, 9, 10, 11, 12]
            [24, 30, 73, 77, 9, 90, 84, 70, 90, 84, 28, 65, 82, 88, 76, 21, 94, 87]\<rparr>],
      u_password = str ''pw2'', u_unlocked = False, u_decryptedNotes = [], u_error = []\<rparr> =
     \<lparr>u_notes =
        [\<lparr>note_id = str ''1'',
          note_text = JSON_stringify [1, 2, 3, 4, 5, 6, 7, 8, 9, 10, 11, 12]
            [24, 30, 73, 77, 9, 90, 84, 70, 90, 84, 28, 65, 82, 88, 76, 21, 94, 87]\<rparr>,
         \<lparr>note_id = str ''2'',
          note_text = JSON_stringify [1, 2, 3, 4, 5, 6, 7, 8, 9, 10, 11, 12]
            [24, 30, 73, 77, 93, 85, 69, 91, 91, 29, 66, 83, 95, 64, 21, 94, 87, 74]\<rparr>,
         \<lparr>note_id = str ''3'',
          note_text = JSON_stringify [1, 2, 3, 4, 5, 6, 7, 8, 9, 10, 11, 12]
            [24, 30, 73, 77, 9, 90, 84, 70, 90, 84, 28, 65, 82, 88, 76, 21, 94, 87]\<rparr>],
      u_password = str ''pw2'', u_unlocked = False, u_decryptedNotes = [],
      u_error = str ''Incorrect password''\<rparr>"
  by (simp add: attemptUnlock_def sim_note_pw2 sim_note_pw)

section \<open>Telling a record from a plain note\<close>

text \<open>
  Claim C6, as the code has it. The record of each variant is the encoding of the nonce
  and the ciphertext and of nothing else. In the password variant it is the JSON text of
  the two arrays, which begins with the seven characters up to the bracket of \<open>iv\<close>; in
  the raw-key variant it is the base64 text of the nonce followed by the ciphertext; in
  the AES-CBC variant it is the base64 text of the nonce, a colon, and the base64 text of
  the ciphertext. The page of the raw-key variant stores plain notes beside records: with
  an empty key \<open>encryptText\<close> returns the plaintext itself, and the text of a record, typed
  as a plain note, is stored as the same string.
\<close>

theorem record_is_nonce_and_ciphertext:
  assumes "deriveKey P pw = Inr dk"
    and "key \<noteq> []" and "p \<noteq> []" and "length iv = 12"
    and "encryptText_raw P iv p key = Inr r"
    and "encryptText_cbc P iv3 t3 pw3 = Inr r3"
  shows "encryptText P iv1 pw p1 =
           Inr (JSON_stringify iv1 (gcm_encrypt P dk iv1 (TextEncoder_encode p1))) \<and>
         take 7 (JSON_stringify iv1 (gcm_encrypt P dk iv1 (TextEncoder_encode p1))) =
           str ''{'' @ [34] @ str ''iv'' @ [34] @ str '':['' \<and>
         btoa (fromCharCode
                 (iv @ gcm_encrypt P (TextEncoder_encode (padKey key)) iv (TextEncoder_encode p))) =
           Inr r \<and>
         atob r =
           Inr (fromCharCode
                  (iv @ gcm_encrypt P (TextEncoder_encode (padKey key)) iv (TextEncoder_encode p))) \<and>
         (\<exists>ct a b. cbc_encrypt P (TextEncoder_encode pw3) iv3 (TextEncoder_encode t3) = Inr ct \<and>
            btoa (fromCharCode iv3) = Inr a \<and> btoa (fromCharCode ct) = Inr b \<and>
            r3 = a @ str '':'' @ b) \<and>
         encryptText_raw P iv p [] = Inr p \<and>
         handleEncryptSubmit P iv (st\<lparr>p_encryptKey := key\<rparr>) p = Some r \<and>
         handleEncryptSubmit P iv' (st\<lparr>p_encryptKey := []\<rparr>) r = Some r"
proof -
  have pw: "encryptText P iv1 pw p1 =
              Inr (JSON_stringify iv1 (gcm_encrypt P dk iv1 (TextEncoder_encode p1)))"
    using assms(1) by (simp add: encryptText_def)
  have pre: "take 7 (JSON_stringify iv1 ct) = str ''{'' @ [34] @ str ''iv'' @ [34] @ str '':[''" for ct
    by (simp add: JSON_stringify_def show_array_def str_def)
  have K: "importKey (TextEncoder_encode (padKey key)) = Inr (TextEncoder_encode (padKey key))"
    using assms(2,5) by (auto simp: encryptText_raw_def importKey_def split: if_splits)
  have b: "btoa (fromCharCode
                 (iv @ gcm_encrypt P (TextEncoder_encode (padKey key)) iv (TextEncoder_encode p))) =
           Inr r"
    using assms(2,5) K by (auto simp: encryptText_raw_def spread_fromCharCode_def split: if_splits)
  have "iv \<noteq> []" using assms(4) by auto
  then have ne: "r \<noteq> []" using btoa_alphabet(2) [OF b] by simp
  have cbc: "\<exists>ct a b. cbc_encrypt P (TextEncoder_encode pw3) iv3 (TextEncoder_encode t3) = Inr ct \<and>
            btoa (fromCharCode iv3) = Inr a \<and> btoa (fromCharCode ct) = Inr b \<and>
            r3 = a @ str '':'' @ b"
    using assms(6)
    by (auto simp: encryptText_cbc_def importKey_def spread_fromCharCode_def
        split: sum.splits if_splits)
  have h: "handleEncryptSubmit P iv (st\<lparr>p_encryptKey := key\<rparr>) p = Some r"
    "handleEncryptSubmit P iv' (st\<lparr>p_encryptKey := []\<rparr>) r = Some r"
    using assms(2,3,5) ne by (simp_all add: handleEncryptSubmit_def)
  have e: "encryptText_raw P iv p [] = Inr p" by (simp add: encryptText_raw_def)
  show ?thesis using pw pre b btoa_then_atob [OF b] cbc e h by simp
qed

theorem record_is_nonce_and_ciphertext_witness:
  "encryptText sim [1, 2, 3, 4, 5, 6, 7, 8, 9, 10, 11, 12] (str ''pw'') (str ''hi'') =
     Inr (JSON_stringify [1, 2, 3, 4, 5, 6, 7, 8, 9, 10, 11, 12]
            (gcm_encrypt sim (map of_nat (str ''pwfixed-salt-for-derivation'') @ replicate 5 0)
               [1, 2, 3, 4, 5, 6, 7, 8, 9, 10, 11, 12] (TextEncoder_encode (str ''hi'')))) \<and>
   take 7 (JSON_stringify [1, 2, 3, 4, 5, 6, 7, 8, 9, 10, 11, 12]
            (gcm_encrypt sim (map of_nat (str ''pwfixed-salt-for-derivation'') @ replicate 5 0)
               [1, 2, 3, 4, 5, 6, 7, 8, 9, 10, 11, 12] (TextEncoder_encode (str ''hi'')))) =
     str ''{'' @ [34] @ str ''iv'' @ [34] @ str '':['' \<and>
   btoa (fromCharCode
           ([1, 2, 3, 4, 5, 6, 7, 8, 9, 10, 11, 12] @
            gcm_encrypt sim (TextEncoder_encode (padKey (str ''abc'')))
              [1, 2, 3, 4, 5, 6, 7, 8, 9, 10, 11, 12] (TextEncoder_encode (str ''hi'')))) =
     Inr (str ''AQIDBAUGBwgJCgsMCQt2dnYiIyAhLi8sLSomJiYm'') \<and>
   atob (str ''AQIDBAUGBwgJCgsMCQt2dnYiIyAhLi8sLSomJiYm'') =
     Inr (fromCharCode
            ([1, 2, 3, 4, 5, 6, 7, 8, 9, 10, 11, 12] @
             gcm_encrypt sim (TextEncoder_encode (padKey (str ''abc'')))
               [1, 2, 3, 4, 5, 6, 7, 8, 9, 10, 11, 12] (TextEncoder_encode (str ''hi'')))) \<and>
   (\<exists>ct a b. cbc_encrypt sim (TextEncoder_encode (str ''0123456789abcdef''))
                [1, 2, 3, 4, 5, 6, 7, 8, 9, 10, 11, 12, 13, 14, 15, 16]
                (TextEncoder_encode (str ''A'')) = Inr ct \<and>
      btoa (fromCharCode [1, 2, 3, 4, 5, 6, 7, 8, 9, 10, 11, 12, 13, 14, 15, 16]) = Inr a \<and>
      btoa (fromCharCode ct) = Inr b \<and>
      str ''AQIDBAUGBwgJCgsMDQ4PEA=='' @ str '':'' @ str ''cDw+OD48PjA+PGVhYWVleQ=='' =
        a @ str '':'' @ b) \<and>
   encryptText_raw sim [1, 2, 3, 4, 5, 6, 7, 8, 9, 10, 11, 12] (str ''hi'') [] = Inr (str ''hi'') \<and>
   handleEncryptSubmit sim [1, 2, 3, 4, 5, 6, 7, 8, 9, 10, 11, 12]
     (\<lparr>p_notes = [], p_encryptKey = [], p_decryptKey = [], p_decryptedNotes = []\<rparr>
        \<lparr>p_encryptKey := str ''abc''\<rparr>)
     (str ''hi'') = Some (str ''AQIDBAUGBwgJCgsMCQt2dnYiIyAhLi8sLSomJiYm'') \<and>
   handleEncryptSubmit sim []
     (\<lparr>p_notes = [], p_encryptKey = [], p_decryptKey = [], p_decryptedNotes = []\<rparr>
        \<lparr>p_encryptKey := []\<rparr>)
     (str ''AQIDBAUGBwgJCgsMCQt2dnYiIyAhLi8sLSomJiYm'') =
     Some (str ''AQIDBAUGBwgJCgsMCQt2dnYiIyAhLi8sLSomJiYm'')"
proof -
  have p: "str ''hi'' \<noteq> []" by (simp add: str_def)
  have l: "length [1, 2, 3, 4, 5, 6, 7, 8, 9, 10, 11, 12 :: byte] = 12" by simp
  show ?thesis
    by (rule record_is_nonce_and_ciphertext [OF sim_key_pw(1) str_abc_ne(1) p l sim_raw_record
          sim_cbc_encrypt_A(1)])
qed

text \<open>
  The same stored string, once as the record of \<open>hi\<close> under the key \<open>abc\<close> and once
  as a plain note.
\<close>

theorem plain_note_equals_record:
  "handleEncryptSubmit sim [1, 2, 3, 4, 5, 6, 7, 8, 9, 10, 11, 12]
     \<lparr>p_notes = [], p_encryptKey = str ''abc'', p_decryptKey = [], p_decryptedNotes = []\<rparr>
     (str ''hi'') = Some (str ''AQIDBAUGBwgJCgsMCQt2dnYiIyAhLi8sLSomJiYm'') \<and>
   handleEncryptSubmit sim [1, 2, 3, 4, 5, 6, 7, 8, 9, 10, 11, 12]
     \<lparr>p_notes = [], p_encryptKey = [], p_decryptKey = [], p_decryptedNotes = []\<rparr>
     (str ''AQIDBAUGBwgJCgsMCQt2dnYiIyAhLi8sLSomJiYm'') =
     Some (str ''AQIDBAUGBwgJCgsMCQt2dnYiIyAhLi8sLSomJiYm'')"
  using str_abc_ne(1) by (simp add: handleEncryptSubmit_def sim_raw_record) (simp add: str_def)

section \<open>Nonces\<close>




section \<open>Key derivation\<close>

text \<open>
  Claim C8, as the code has it. \<open>deriveKey\<close> validates nothing: for every password, the
  empty one included, it returns the PBKDF2 key for that password, the fixed salt and
  150000 iterations. The salt and the iteration count are not inputs, no call of it
  signals an error, and \<open>encryptText\<close> with the empty password returns a record.
\<close>

theorem deriveKey_never_rejects:
  "deriveKey P password =
     Inr (pbkdf2 P (TextEncoder_encode password)
            (TextEncoder_encode (str ''fixed-salt-for-derivation'')) 150000) \<and>
   deriveKey P [] =
     Inr (pbkdf2 P [] (TextEncoder_encode (str ''fixed-salt-for-derivation'')) 150000) \<and>
   (\<exists>ct. encryptText P iv [] p = Inr (JSON_stringify iv ct))"
proof -
  have "TextEncoder_encode [] = []" by (simp add: TextEncoder_encode_def)
  then show ?thesis by (auto simp: deriveKey_def encryptText_def)
qed

text \<open>
  The empty password is accepted: on the instance the derived key is the salt followed
  by seven zero bytes.
\<close>

theorem deriveKey_empty_password_accepted:
  "deriveKey sim [] = Inr (map of_nat (str ''fixed-salt-for-derivation'') @ replicate 7 0)"
  by (simp add: deriveKey_def sim_def sim_pbkdf2_def TextEncoder_encode_def str_def
      utf8_encode_cp_def is_high_def is_low_def)

section \<open>The age variant stores the text in the clear\<close>

text \<open>
  Claim C9, as the code has it. For a text whose UTF-8 bytes are no more than the engine
  takes as arguments, the record of \<open>encryptWithAge\<close> is the fixed armour around the
  base64 text of these bytes; for a longer text it is \<open>RangeError\<close> and no record.
  \<open>atob\<close> gives the bytes back, and a reader that holds no key (\<open>age_recover\<close>) returns the
  text with every surrogate that stands alone replaced by U+FFFD. This is the text itself
  exactly when every surrogate of the text is paired.
\<close>

theorem age_record_is_base64_of_utf8:
  assumes "list_all (\<lambda>u. u < 0x10000) t"
  shows "\<exists>payload.
           btoa (fromCharCode (TextEncoder_encode t)) = Inr payload \<and>
           encryptWithAge P t =
             (if max_args P < length (TextEncoder_encode t) then Inl RangeError
              else Inr (age_header @ str ''Recipient: '' @ AGE_PUBLIC_KEY @ [10, 10] @ payload @
                        age_footer)) \<and>
           atob payload = Inr (fromCharCode (TextEncoder_encode t)) \<and>
           age_recover (age_header @ str ''Recipient: '' @ AGE_PUBLIC_KEY @ [10, 10] @ payload @
                  age_footer) = Inr (from_usv (to_usv t)) \<and>
           (from_usv (to_usv t) = t) = wellformed t"
proof -
  obtain e where e: "btoa (fromCharCode (TextEncoder_encode t)) = Inr e"
    "atob e = Inr (fromCharCode (TextEncoder_encode t))"
    using atob_btoa_bytes by blast
  have r: "age_recover (age_header @ str ''Recipient: '' @ AGE_PUBLIC_KEY @ [10, 10] @ e @ age_footer)
        = Inr (from_usv (to_usv t))"
    using age_recover_record [of e] by (simp add: e utf8_of_units [OF assms])
  have a: "encryptWithAge P t =
             (if max_args P < length (TextEncoder_encode t) then Inl RangeError
              else Inr (age_header @ str ''Recipient: '' @ AGE_PUBLIC_KEY @ [10, 10] @ e @
                        age_footer))"
    by (simp add: encryptWithAge_def spread_fromCharCode_def e)
  show ?thesis using e r a from_to_usv_iff [OF assms] by blast
qed

theorem age_record_is_base64_of_utf8_witness:
  "\<exists>payload.
      btoa (fromCharCode (TextEncoder_encode (str ''hi''))) = Inr payload \<and>
      encryptWithAge sim (str ''hi'') =
        (if max_args sim < length (TextEncoder_encode (str ''hi'')) then Inl RangeError
         else Inr (age_header @ str ''Recipient: '' @ AGE_PUBLIC_KEY @ [10, 10] @ payload @
                   age_footer)) \<and>
      atob payload = Inr (fromCharCode (TextEncoder_encode (str ''hi''))) \<and>
      age_recover (age_header @ str ''Recipient: '' @ AGE_PUBLIC_KEY @ [10, 10] @ payload @
             age_footer) = Inr (from_usv (to_usv (str ''hi''))) \<and>
      (from_usv (to_usv (str ''hi'')) = str ''hi'') = wellformed (str ''hi'')"
proof -
  have u: "list_all (\<lambda>u. u < 0x10000) (str ''hi'')" by (simp add: str_def)
  show ?thesis by (rule age_record_is_base64_of_utf8 [OF u])
qed

text \<open>
  A text that is one high surrogate. Its record holds the base64 text of the three bytes
  of U+FFFD, the record of the text U+FFFD is the same, and the reader without a key
  returns U+FFFD: the text is not recovered.
\<close>

theorem age_lone_surrogate_lost:
  "encryptWithAge sim [0xD800] =
     Inr (age_header @ str ''Recipient: '' @ AGE_PUBLIC_KEY @ [10, 10] @ str ''77+9'' @ age_footer) \<and>
   encryptWithAge sim [0xFFFD] = encryptWithAge sim [0xD800] \<and>
   age_recover (age_header @ str ''Recipient: '' @ AGE_PUBLIC_KEY @ [10, 10] @ str ''77+9'' @
          age_footer) = Inr [0xFFFD]"
proof -
  have e: "TextEncoder_encode [0xD800] = [0xEF, 0xBF, 0xBD]"
    "TextEncoder_encode [0xFFFD] = [0xEF, 0xBF, 0xBD]"
    by (simp_all add: TextEncoder_encode_def utf8_encode_cp_def is_high_def is_low_def)
  have b: "btoa (fromCharCode [0xEF, 0xBF, 0xBD]) = Inr (str ''77+9'')"
    by (simp add: btoa_def fromCharCode_def b64_char_def str_def)
  have a: "atob (str ''77+9'') = Inr [0xEF, 0xBF, 0xBD]"
    by (simp add: atob_def strip_padding_def ascii_whitespace_def b64_value_def str_def)
  have d: "utf8_decode 0 0 0 0x80 0xBF [0xEF, 0xBF, 0xBD] = [0xFFFD]"
    by (simp add: utf8_decode.simps)
  have r: "age_recover (age_header @ str ''Recipient: '' @ AGE_PUBLIC_KEY @ [10, 10] @ str ''77+9'' @
          age_footer) = Inr [0xFFFD]"
    using age_recover_record [of "str ''77+9''"] by (simp add: a d)
  have w: "encryptWithAge sim [0xD800] =
     Inr (age_header @ str ''Recipient: '' @ AGE_PUBLIC_KEY @ [10, 10] @ str ''77+9'' @ age_footer)"
    "encryptWithAge sim [0xFFFD] = encryptWithAge sim [0xD800]"
    by (simp_all add: encryptWithAge_def spread_fromCharCode_def e b)
  show ?thesis using w r by blast
qed

section \<open>Padded keys\<close>

text \<open>
  Claim C10. \<open>key.padEnd(32, '0').slice(0, 32)\<close> gives 32 code units: a shorter key
  followed by zeros, or the first 32 code units of a longer one. These are 32 bytes
  exactly when all of them are ASCII, and more otherwise; then \<open>importKey\<close> throws
  \<open>DataError\<close>, \<open>encryptText\<close> makes no record and \<open>decryptText\<close> returns its failure text.
  Two non-empty keys with the same padded form are interchangeable: \<open>encryptText\<close> and
  \<open>decryptText\<close> return the same under both, and where the padded key is ASCII and AES-GCM
  decrypts what it encrypted, a record made under the first decrypts under the second.
\<close>

theorem padded_key_is_32_code_units:
  assumes "k1 \<noteq> []" and "k2 \<noteq> []" and "padKey k1 = padKey k2"
  shows "length (padKey k1) = 32 \<and>
         padKey k1 = (if length k1 < 32 then k1 @ replicate (32 - length k1) 48 else take 32 k1) \<and>
         32 \<le> length (TextEncoder_encode (padKey k1)) \<and>
         (length (TextEncoder_encode (padKey k1)) = 32) = list_all (\<lambda>u. u < 128) (padKey k1) \<and>
         importKey (TextEncoder_encode (padKey k1)) =
           (if list_all (\<lambda>u. u < 128) (padKey k1) then Inr (TextEncoder_encode (padKey k1))
            else Inl DataError) \<and>
         encryptText_raw P iv t k1 = encryptText_raw P iv t k2 \<and>
         decryptText_raw P r k1 = decryptText_raw P r k2 \<and>
         cross_raw P iv k1 k2 t = cross_raw P iv k1 k1 t \<and>
         (list_all (\<lambda>u. u < 128) (padKey k1) \<and> length iv = 12 \<and>
          length iv + length (gcm_encrypt P (TextEncoder_encode (padKey k1)) iv (TextEncoder_encode t))
            \<le> max_args P \<and>
          gcm_decrypt P (TextEncoder_encode (padKey k1)) iv
            (gcm_encrypt P (TextEncoder_encode (padKey k1)) iv (TextEncoder_encode t)) =
            Some (TextEncoder_encode t) \<longrightarrow>
          cross_raw P iv k1 k2 t = Inr (TextDecoder_decode (TextEncoder_encode t))) \<and>
         (\<not> list_all (\<lambda>u. u < 128) (padKey k1) \<longrightarrow>
          encryptText_raw P iv t k1 = Inl DataError \<and> decryptText_raw P r k1 = failed_raw r)"
proof -
  have p: "padKey k1 = (if length k1 < 32 then k1 @ replicate (32 - length k1) 48 else take 32 k1)"
    by (simp add: padKey_def)
  have n: "32 \<le> length (TextEncoder_encode (padKey k1))"
    "(length (TextEncoder_encode (padKey k1)) = 32) = list_all (\<lambda>u. u < 128) (padKey k1)"
    using length_TextEncoder_encode [of "padKey k1"] by (simp_all add: length_padKey)
  have a: "encryptText_raw P iv t k1 = encryptText_raw P iv t k2"
    using assms by (simp add: encryptText_raw_def)
  have b: "decryptText_raw P r k1 = decryptText_raw P r k2" for r
    unfolding decryptText_raw_def assms(3) using assms(1,2) by simp
  have x: "cross_raw P iv k1 k2 t = cross_raw P iv k1 k1 t"
    by (simp add: cross_raw_def b split: sum.splits)
  have c: "cross_raw P iv k1 k2 t = Inr (TextDecoder_decode (TextEncoder_encode t))"
    if "list_all (\<lambda>u. u < 128) (padKey k1)" "length iv = 12"
      "length iv + length (gcm_encrypt P (TextEncoder_encode (padKey k1)) iv (TextEncoder_encode t))
         \<le> max_args P"
      "gcm_decrypt P (TextEncoder_encode (padKey k1)) iv
         (gcm_encrypt P (TextEncoder_encode (padKey k1)) iv (TextEncoder_encode t)) =
         Some (TextEncoder_encode t)"
  proof -
    have K: "importKey (TextEncoder_encode (padKey k1)) = Inr (TextEncoder_encode (padKey k1))"
      using that(1) by (simp add: importKey_padKey)
    show ?thesis by (rule cross_raw_bytes [OF assms K that(2) that(4) that(3)])
  qed
  have d: "encryptText_raw P iv t k1 = Inl DataError \<and> decryptText_raw P r k1 = failed_raw r"
    if "\<not> list_all (\<lambda>u. u < 128) (padKey k1)"
    using that assms(1)
    by (simp add: encryptText_raw_def decryptText_raw_def importKey_padKey Let_def split: sum.splits)
  show ?thesis using p n importKey_padKey [of k1] a b [of r] x c d by (simp add: length_padKey)
qed

theorem padded_key_is_32_code_units_witness:
  "(length (padKey (str ''abc'')) = 32 \<and>
    padKey (str ''abc'') = str ''abc00000000000000000000000000000'' \<and>
    length (TextEncoder_encode (padKey (str ''abc''))) = 32 \<and>
    encryptText_raw sim [1, 2, 3, 4, 5, 6, 7, 8, 9, 10, 11, 12] (str ''hi'') (str ''abc'') =
      encryptText_raw sim [1, 2, 3, 4, 5, 6, 7, 8, 9, 10, 11, 12] (str ''hi'') (str ''abc0'') \<and>
    decryptText_raw sim (str ''AQIDBAUGBwgJCgsMCQt2dnYiIyAhLi8sLSomJiYm'') (str ''abc'') =
      decryptText_raw sim (str ''AQIDBAUGBwgJCgsMCQt2dnYiIyAhLi8sLSomJiYm'') (str ''abc0'') \<and>
    cross_raw sim [1, 2, 3, 4, 5, 6, 7, 8, 9, 10, 11, 12] (str ''abc'') (str ''abc0'') (str ''hi'') =
      Inr (TextDecoder_decode (TextEncoder_encode (str ''hi'')))) \<and>
   (padKey [0xE9] = padKey [0xE9, 48] \<and>
    length (padKey [0xE9]) = 32 \<and>
    padKey [0xE9] = [0xE9] @ replicate 31 48 \<and>
    length (TextEncoder_encode (padKey [0xE9])) \<noteq> 32 \<and>
    importKey (TextEncoder_encode (padKey [0xE9])) = Inl DataError \<and>
    encryptText_raw sim [1, 2, 3, 4, 5, 6, 7, 8, 9, 10, 11, 12] (str ''hi'') [0xE9] = Inl DataError \<and>
    decryptText_raw sim (str ''AQIDBAUGBwgJCgsMCQt2dnYiIyAhLi8sLSomJiYm'') [0xE9] =
      failed_raw (str ''AQIDBAUGBwgJCgsMCQt2dnYiIyAhLi8sLSomJiYm''))"
proof -
  let ?iv = "[1, 2, 3, 4, 5, 6, 7, 8, 9, 10, 11, 12] :: byte list"
  let ?r = "str ''AQIDBAUGBwgJCgsMCQt2dnYiIyAhLi8sLSomJiYm''"
  let ?K = "TextEncoder_encode (padKey (str ''abc''))"
  note T = padded_key_is_32_code_units [OF str_abc_ne(1) str_abc_ne(2) padKey_abc,
      of sim ?iv "str ''hi''" ?r]
  have l: "length ?iv = 12" by simp
  have g: "gcm_decrypt sim ?K ?iv (gcm_encrypt sim ?K ?iv (TextEncoder_encode (str ''hi''))) =
           Some (TextEncoder_encode (str ''hi''))"
    by (simp add: sim_gcm_correct)
  have sz: "length ?iv + length (gcm_encrypt sim ?K ?iv (TextEncoder_encode (str ''hi''))) \<le>
            max_args sim"
    by (rule sim_sizes(1))
  have as: "list_all (\<lambda>u. u < 128) (padKey (str ''abc''))"
    by (rule ascii_padKey [OF ascii_str_abc(1)])
  have "padKey (str ''abc'') =
        (if length (str ''abc'') < 32 then str ''abc'' @ replicate (32 - length (str ''abc'')) 48
         else take 32 (str ''abc''))"
    using T by blast
  then have a2: "padKey (str ''abc'') = str ''abc00000000000000000000000000000''"
    by (simp add: str_def replicate_numeral)
  have a3: "length (TextEncoder_encode (padKey (str ''abc''))) = 32" using T as by blast
  have a6: "cross_raw sim ?iv (str ''abc'') (str ''abc0'') (str ''hi'') =
      Inr (TextDecoder_decode (TextEncoder_encode (str ''hi'')))"
    using T as l sz g by blast
  have first: "length (padKey (str ''abc'')) = 32 \<and>
    padKey (str ''abc'') = str ''abc00000000000000000000000000000'' \<and>
    length (TextEncoder_encode (padKey (str ''abc''))) = 32 \<and>
    encryptText_raw sim ?iv (str ''hi'') (str ''abc'') =
      encryptText_raw sim ?iv (str ''hi'') (str ''abc0'') \<and>
    decryptText_raw sim ?r (str ''abc'') = decryptText_raw sim ?r (str ''abc0'') \<and>
    cross_raw sim ?iv (str ''abc'') (str ''abc0'') (str ''hi'') =
      Inr (TextDecoder_decode (TextEncoder_encode (str ''hi'')))"
    using T a2 a3 a6 by blast
  have e1: "[0xE9] \<noteq> ([] :: nat list)" "[0xE9, 48] \<noteq> ([] :: nat list)" by simp_all
  have pe: "padKey [0xE9] = padKey [0xE9, 48]"
    by (simp add: padKey_def replicate_numeral)
  note U = padded_key_is_32_code_units [OF e1 pe, of sim ?iv "str ''hi''" ?r]
  have "padKey [0xE9] =
        (if length [0xE9 :: nat] < 32 then [0xE9] @ replicate (32 - length [0xE9 :: nat]) 48
         else take 32 [0xE9])"
    using U by blast
  then have b2: "padKey [0xE9] = [0xE9] @ replicate 31 48" by simp
  have na: "\<not> list_all (\<lambda>u. u < 128) (padKey [0xE9])" by (simp add: b2)
  have b3: "length (TextEncoder_encode (padKey [0xE9])) \<noteq> 32" using U na by blast
  have "importKey (TextEncoder_encode (padKey [0xE9])) =
          (if list_all (\<lambda>u. u < 128) (padKey [0xE9]) then Inr (TextEncoder_encode (padKey [0xE9]))
           else Inl DataError)"
    using U by blast
  then have b4: "importKey (TextEncoder_encode (padKey [0xE9])) = Inl DataError"
    using na by simp
  have second: "padKey [0xE9] = padKey [0xE9, 48] \<and>
    length (padKey [0xE9]) = 32 \<and>
    padKey [0xE9] = [0xE9] @ replicate 31 48 \<and>
    length (TextEncoder_encode (padKey [0xE9])) \<noteq> 32 \<and>
    importKey (TextEncoder_encode (padKey [0xE9])) = Inl DataError \<and>
    encryptText_raw sim ?iv (str ''hi'') [0xE9] = Inl DataError \<and>
    decryptText_raw sim ?r [0xE9] = failed_raw ?r"
    using U pe b2 b3 b4 na by blast
  show ?thesis using first second by blast
qed

end
